theory Spec2Isabelle
  imports Main "HOL-Library.Word"
begin

section \<open>The engine boundary\<close>

text \<open>
  \<^verbatim>\<open>SqliteWrapper\<close> drives an SQL engine through seven entry points of \<^verbatim>\<open>sqlite3.h\<close>
  (\<^verbatim>\<open>sqlite3_a3d_open_v2\<close>, \<^verbatim>\<open>_busy_timeout\<close>, \<^verbatim>\<open>_close_v2\<close>, \<^verbatim>\<open>_exec\<close>, \<^verbatim>\<open>_changes\<close>,
  \<^verbatim>\<open>_get_autocommit\<close>, \<^verbatim>\<open>_errmsg\<close>). The engine is not part of the wrapper, so it is a
  parameter of the model: a record of functions over an engine state \<open>'e\<close> that stands
  for the database file, its locks and everything else the engine answers from.

  A \<^verbatim>\<open>sqlite3*\<close> is a \<open>handle option\<close>, \<open>None\<close> being \<^verbatim>\<open>nullptr\<close>. One invocation of
  the row callback carries \<^verbatim>\<open>count\<close> and \<^verbatim>\<open>data\<close>; it is modelled by the list of its
  \<^verbatim>\<open>data\<close> pointers (\<open>None\<close> for a null \<^verbatim>\<open>char*\<close>), \<^verbatim>\<open>count\<close> being its length.
  \<^verbatim>\<open>sqlite3_a3d_open_v2\<close> stores into \<^verbatim>\<open>*ppDb\<close> on every call, a handle or null, and
  returns its status; \<^verbatim>\<open>sqlite3_a3d_exec\<close> delivers the rows to the callback and returns
  its status.
\<close>

type_synonym handle = nat

type_synonym row = "string option list"

record 'e engine =
  sqlite3_a3d_open_v2 :: "string \<Rightarrow> 'e \<Rightarrow> int \<times> handle option \<times> 'e"
  sqlite3_a3d_busy_timeout :: "handle option \<Rightarrow> int \<Rightarrow> 'e \<Rightarrow> 'e"
  sqlite3_a3d_close_v2 :: "handle option \<Rightarrow> 'e \<Rightarrow> 'e"
  sqlite3_a3d_exec :: "handle option \<Rightarrow> string \<Rightarrow> 'e \<Rightarrow> int \<times> row list \<times> 'e"
  sqlite3_a3d_changes :: "handle option \<Rightarrow> 'e \<Rightarrow> int"
  sqlite3_a3d_get_autocommit :: "handle option \<Rightarrow> 'e \<Rightarrow> int"
  sqlite3_a3d_errmsg :: "handle option \<Rightarrow> 'e \<Rightarrow> string"

text \<open>
  Modelled from the spec: the status codes that the wrapper names. They are declared in
  \<^verbatim>\<open>sqlite3.h\<close>, which is not among the sources. The spec has success, busy and I/O
  error as three distinct codes; the wrapper tests success as 0, and the other two
  values are those of the SQLite library.
\<close>

definition SQLITE_OK :: int where
  "SQLITE_OK = 0"

definition SQLITE_BUSY :: int where
  "SQLITE_BUSY = 5"

definition SQLITE_IOERR :: int where
  "SQLITE_IOERR = 10"

section \<open>State\<close>

text \<open>
  Everything the wrapper does besides updating its fields is an effect on something
  outside it: the engine, the guard \<^verbatim>\<open>m_dbConnectionMutex\<close>, the clock, \<^verbatim>\<open>std::cout\<close>.
  Each such effect is appended to \<open>trace\<close> in program order, so that the order of
  effects can be stated. \<open>EvExec h t rows rc\<close> is one call of \<^verbatim>\<open>sqlite3_a3d_exec\<close> on
  handle \<open>h\<close> with text \<open>t\<close>: \<open>rows\<close> are the invocations of the row callback it made,
  in order, and \<open>rc\<close> the status it returned.
\<close>

datatype event =
    EvOpen string "handle option" int
  | EvBusyTimeout "handle option" int
  | EvClose "handle option"
  | EvExec "handle option" string "row list" int
  | EvChanges "handle option"
  | EvGetAutocommit "handle option"
  | EvErrmsg "handle option"
  | EvLock
  | EvUnlock
  | EvLockShared
  | EvUnlockShared
  | EvSleep nat
  | EvCout string

record 'e state =
  m_isOpened :: bool
  m_timeoutMs :: "32 word"
  m_databasePath :: string
  m_database :: "handle option"
  eng :: 'e
  trace :: "event list"

definition emit :: "event list \<Rightarrow> 'e state \<Rightarrow> 'e state" where
  "emit evs s = s\<lparr>trace := trace s @ evs\<rparr>"

section \<open>Connection manager\<close>

definition InitDatabase :: "'e engine \<Rightarrow> 'e state \<Rightarrow> bool \<times> 'e state" where
  "InitDatabase E s =
     (if m_database s \<noteq> None then (False, s)
      else
        (case sqlite3_a3d_open_v2 E (m_databasePath s) (eng s) of (rc, h, e1) \<Rightarrow>
           let s1 = emit [EvOpen (m_databasePath s) h rc] (s\<lparr>m_database := h, eng := e1\<rparr>)
           in if SQLITE_OK \<noteq> rc then (False, s1)
              else
                let s2 = emit [EvBusyTimeout (m_database s1) 2000]
                           (s1\<lparr>eng := sqlite3_a3d_busy_timeout E (m_database s1) 2000 (eng s1)\<rparr>);
                    s3 = s2\<lparr>m_isOpened := True\<rparr>
                in (m_isOpened s3, s3)))"

definition Reconnect :: "'e engine \<Rightarrow> 'e state \<Rightarrow> bool \<times> 'e state" where
  "Reconnect E s =
     (let s1 = emit [EvLock] s;
          s2 = emit [EvClose (m_database s1)]
                 (s1\<lparr>eng := sqlite3_a3d_close_v2 E (m_database s1) (eng s1)\<rparr>)
      in case sqlite3_a3d_open_v2 E (m_databasePath s2) (eng s2) of (rc, h, e1) \<Rightarrow>
           let s3 = emit [EvOpen (m_databasePath s2) h rc] (s2\<lparr>m_database := h, eng := e1\<rparr>)
           in if SQLITE_OK \<noteq> rc then (False, emit [EvUnlock] s3)
              else (True, emit [EvUnlock] s3))"

definition IsReady :: "'e state \<Rightarrow> bool" where
  "IsReady s = m_isOpened s"

definition SetTimeout :: "32 word \<Rightarrow> 'e state \<Rightarrow> 'e state" where
  "SetTimeout timeoutMs s = s\<lparr>m_timeoutMs := timeoutMs\<rparr>"

definition IsInTransaction :: "'e engine \<Rightarrow> 'e state \<Rightarrow> bool \<times> 'e state" where
  "IsInTransaction E s =
     (0 = sqlite3_a3d_get_autocommit E (m_database s) (eng s),
      emit [EvGetAutocommit (m_database s)] s)"

definition LastErrorMessage :: "'e engine \<Rightarrow> 'e state \<Rightarrow> string \<times> 'e state" where
  "LastErrorMessage E s =
     (sqlite3_a3d_errmsg E (m_database s) (eng s), emit [EvErrmsg (m_database s)] s)"

section \<open>Collecting rows\<close>

text \<open>
  \<^verbatim>\<open>std::vector::resize(count)\<close> keeps the first \<^verbatim>\<open>count\<close> elements and pads with
  empty vectors.
\<close>

definition resize :: "nat \<Rightarrow> string list list \<Rightarrow> string list list" where
  "resize n xs = take n xs @ replicate (n - length xs) []"

definition cell :: "string option \<Rightarrow> string" where
  "cell d = (case d of Some t \<Rightarrow> t | None \<Rightarrow> [])"

text \<open>The \<^verbatim>\<open>for\<close> loop of the callback, from index \<open>i\<close> on.\<close>

function push_columns :: "nat \<Rightarrow> nat \<Rightarrow> row \<Rightarrow> string list list \<Rightarrow> string list list" where
  "push_columns i count data res =
     (if i < count
      then push_columns (i + 1) count data (res[i := res ! i @ [cell (data ! i)]])
      else res)"
  by pat_completeness auto
termination
  by (relation "measure (\<lambda>(i, count, data, res). count - i)") auto

declare push_columns.simps [simp del]

definition getResultsCallBack :: "string list list \<Rightarrow> row \<Rightarrow> string list list" where
  "getResultsCallBack container data =
     (let count = length data in push_columns 0 count data (resize count container))"

section \<open>Statement executor\<close>

text \<open>
  The locals of \<^verbatim>\<open>ExecStatement\<close> that the loop reads or writes, with its three output
  parameters. \<open>loop_done\<close> is the local \<^verbatim>\<open>done\<close> and \<open>loop_i\<close> the local \<^verbatim>\<open>i\<close>;
  \<open>pnUpdatedRows\<close> is \<open>None\<close> for a null pointer and otherwise holds the pointee.
  \<^verbatim>\<open>i\<close> is only incremented on a BUSY iteration with a non-zero budget and the retry
  flag set, and stays below 13 (\<open>call_counter\<close>), so it never leaves the range of
  \<^verbatim>\<open>int\<close>.
\<close>

record frame =
  retValue :: int
  results :: "string list list"
  pnUpdatedRows :: "int option"
  alreadyTriedReconnecting :: bool
  loop_done :: bool
  loop_i :: int

text \<open>Lines 136--162: take the guard, submit, read the counter, release the guard.\<close>

definition submit :: "'e engine \<Rightarrow> string \<Rightarrow> frame \<times> 'e state \<Rightarrow> frame \<times> 'e state" where
  "submit E statementText = (\<lambda>(L, s).
     let (L1, s1) = (if pnUpdatedRows L \<noteq> None
                     then (L\<lparr>pnUpdatedRows := Some 0\<rparr>, emit [EvLock] s)
                     else (L, emit [EvLockShared] s))
     in case sqlite3_a3d_exec E (m_database s1) statementText (eng s1) of (rc, rows, e1) \<Rightarrow>
       let s2 = emit [EvExec (m_database s1) statementText rows rc] (s1\<lparr>eng := e1\<rparr>);
           L2 = L1\<lparr>retValue := rc, results := foldl getResultsCallBack (results L1) rows\<rparr>
       in if pnUpdatedRows L2 \<noteq> None
          then
            (if retValue L2 = 0
             then (L2\<lparr>pnUpdatedRows := Some (sqlite3_a3d_changes E (m_database s2) (eng s2))\<rparr>,
                   emit [EvChanges (m_database s2), EvUnlock] s2)
             else (L2, emit [EvUnlock] s2))
          else (L2, emit [EvUnlockShared] s2))"

text \<open>The three places that fall back to \<^verbatim>\<open>Reconnect\<close> share these lines.\<close>

definition reconnect_once :: "'e engine \<Rightarrow> frame \<times> 'e state \<Rightarrow> frame \<times> 'e state" where
  "reconnect_once E = (\<lambda>(L, s).
     if alreadyTriedReconnecting L then (L\<lparr>loop_done := True\<rparr>, s)
     else
       (case Reconnect E s of (ok, s1) \<Rightarrow>
          (L\<lparr>loop_done := \<not> ok, alreadyTriedReconnecting := True\<rparr>, s1)))"

text \<open>Lines 164--206: the \<^verbatim>\<open>switch\<close> on the status.\<close>

definition switch_status :: "'e engine \<Rightarrow> bool \<Rightarrow> frame \<times> 'e state \<Rightarrow> frame \<times> 'e state" where
  "switch_status E retry = (\<lambda>(L, s).
     if retValue L = SQLITE_BUSY then
       (if m_timeoutMs s = 0 then (L, emit [EvSleep 15] s)
        else if retry then
          (let L1 = L\<lparr>loop_i := loop_i L + 1\<rparr>
           in if loop_i L < 10 then (L1, emit [EvSleep 15] s)
              else reconnect_once E (L1, s))
        else reconnect_once E (L, s))
     else if retValue L = 0 then (L\<lparr>loop_done := True\<rparr>, s)
     else if retValue L = SQLITE_IOERR then reconnect_once E (L, s)
     else
       (case LastErrorMessage E s of (msg, s1) \<Rightarrow>
          reconnect_once E (L, emit [EvCout (''WrapperExecError: '' @ msg)] s1)))"

definition ExecStatement_body ::
  "'e engine \<Rightarrow> string \<Rightarrow> bool \<Rightarrow> frame \<times> 'e state \<Rightarrow> frame \<times> 'e state" where
  "ExecStatement_body E statementText retry c = switch_status E retry (submit E statementText c)"

text \<open>
  The \<^verbatim>\<open>while (!done)\<close> loop. Nothing bounds the number of iterations (a budget of 0
  retries a busy engine for ever), so the result is an option and \<open>None\<close> is the call
  that never returns.
\<close>

partial_function (option) ExecStatement_loop ::
  "'e engine \<Rightarrow> string \<Rightarrow> bool \<Rightarrow> frame \<times> 'e state \<Rightarrow> (frame \<times> 'e state) option" where
  "ExecStatement_loop E statementText retry c =
     (if loop_done (fst c) then Some c
      else ExecStatement_loop E statementText retry (ExecStatement_body E statementText retry c))"

declare ExecStatement_loop.simps [code]

definition frame0 :: "int \<Rightarrow> string list list \<Rightarrow> int option \<Rightarrow> frame" where
  "frame0 rv res pn =
     \<lparr>retValue = rv, results = res, pnUpdatedRows = pn,
      alreadyTriedReconnecting = False, loop_done = False, loop_i = 0\<rparr>"

text \<open>
  The five-parameter \<^verbatim>\<open>ExecStatement\<close>. It returns its \<^verbatim>\<open>bool\<close> with the final frame,
  whose \<open>retValue\<close>, \<open>results\<close> and \<open>pnUpdatedRows\<close> are the three output parameters.
\<close>

definition ExecStatement ::
  "'e engine \<Rightarrow> string \<Rightarrow> int \<Rightarrow> string list list \<Rightarrow> bool \<Rightarrow> int option \<Rightarrow> 'e state
     \<Rightarrow> ((bool \<times> frame) \<times> 'e state) option" where
  "ExecStatement E statementText rv res retry pn s =
     (if \<not> IsReady s then Some ((False, frame0 rv res pn), s)
      else
        (case ExecStatement_loop E statementText retry (frame0 rv res pn, s) of
           None \<Rightarrow> None
         | Some (L, s1) \<Rightarrow> Some ((retValue L = 0, L), s1)))"

text \<open>
  The loop of a call that shares the object with other threads. \<open>others\<close> lists what
  the other threads do to the object after each of the first iterations of this call, one
  entry per iteration (the identity when they do nothing), between the end of that
  iteration's \<^verbatim>\<open>switch\<close> and the next test of \<^verbatim>\<open>done\<close>; once the list is used up the
  call runs alone.
\<close>

fun ExecStatement_interleaved ::
  "'e engine \<Rightarrow> string \<Rightarrow> bool \<Rightarrow> ('e state \<Rightarrow> 'e state) list \<Rightarrow> frame \<times> 'e state
     \<Rightarrow> (frame \<times> 'e state) option" where
  "ExecStatement_interleaved E statementText retry [] c = ExecStatement_loop E statementText retry c"
| "ExecStatement_interleaved E statementText retry (other # others) c =
     (if loop_done (fst c) then Some c
      else
        (case ExecStatement_body E statementText retry c of (L, s) \<Rightarrow>
           ExecStatement_interleaved E statementText retry others (L, other s)))"

definition RollBackTransaction :: "'e engine \<Rightarrow> 'e state \<Rightarrow> (bool \<times> 'e state) option" where
  "RollBackTransaction E s =
     map_option (\<lambda>((ok, L), s1). (ok, s1))
       (ExecStatement E ''ROLLBACK TRANSACTION'' 0 [] True None s)"

definition DestroyDatabase :: "'e engine \<Rightarrow> 'e state \<Rightarrow> (bool \<times> 'e state) option" where
  "DestroyDatabase E s =
     (if m_database s = None \<or> \<not> m_isOpened s then Some (False, s)
      else
        (case IsInTransaction E s of (inTx, s1) \<Rightarrow>
           (case (if inTx
                  then map_option
                         (\<lambda>(ok, s2). if \<not> ok
                            then emit [EvCout ''DestroyDatabase: could not rollback transaction''] s2
                            else s2)
                         (RollBackTransaction E s1)
                  else Some s1) of
              None \<Rightarrow> None
            | Some s3 \<Rightarrow>
                let s4 = emit [EvClose (m_database s3)]
                           (s3\<lparr>eng := sqlite3_a3d_close_v2 E (m_database s3) (eng s3)\<rparr>)
                in Some (True, s4\<lparr>m_isOpened := False, m_database := None\<rparr>))))"

text \<open>
  The two constructors, on an engine state \<open>e\<close>; \<open>LINUX\<close> is the build flag of the
  first. The second takes an \<^verbatim>\<open>int\<close> and stores it in the \<^verbatim>\<open>unsigned int\<close> field.
\<close>

definition fresh :: "string \<Rightarrow> 32 word \<Rightarrow> 'e \<Rightarrow> 'e state" where
  "fresh databasePath timeoutMs e =
     \<lparr>m_isOpened = False, m_timeoutMs = timeoutMs, m_databasePath = databasePath,
      m_database = None, eng = e, trace = []\<rparr>"

definition SqliteWrapper :: "'e engine \<Rightarrow> bool \<Rightarrow> string \<Rightarrow> 'e \<Rightarrow> 'e state" where
  "SqliteWrapper E LINUX databasePath e =
     (let s = fresh databasePath 3000 e;
          s1 = (if LINUX then SetTimeout 30000 s else s)
      in snd (InitDatabase E s1))"

definition SqliteWrapper_timeout :: "'e engine \<Rightarrow> string \<Rightarrow> int \<Rightarrow> 'e \<Rightarrow> 'e state" where
  "SqliteWrapper_timeout E databasePath timeoutMs e =
     snd (InitDatabase E (fresh databasePath (word_of_int timeoutMs) e))"

text \<open>The destructor drops the result of \<^verbatim>\<open>DestroyDatabase\<close>.\<close>

definition destructor :: "'e engine \<Rightarrow> 'e state \<Rightarrow> 'e state option" where
  "destructor E s = map_option snd (DestroyDatabase E s)"

section \<open>Reading the trace\<close>

text \<open>What an operation appended to the trace, given the states before and after it.\<close>

definition emitted :: "'e state \<Rightarrow> 'e state \<Rightarrow> event list" where
  "emitted s s1 = drop (length (trace s)) (trace s1)"

text \<open>
  Inside \<^verbatim>\<open>ExecStatement\<close> only \<^verbatim>\<open>Reconnect\<close> opens a handle, and each \<^verbatim>\<open>Reconnect\<close> opens
  one, so the number of \<open>EvOpen\<close> events that a call emits is the number of its
  reconnect attempts.
\<close>

fun is_open :: "event \<Rightarrow> bool" where
  "is_open (EvOpen p h rc) = True"
| "is_open ev = False"

definition reconnects :: "event list \<Rightarrow> nat" where
  "reconnects tr = length (filter is_open tr)"

fun submission :: "event \<Rightarrow> (int \<times> row list) list" where
  "submission (EvExec h t rows rc) = [(rc, rows)]"
| "submission ev = []"

text \<open>The submissions of a trace in order, each with its status and its callback invocations.\<close>

definition submissions :: "event list \<Rightarrow> (int \<times> row list) list" where
  "submissions tr = concat (map submission tr)"

definition callback_rows :: "event list \<Rightarrow> row list" where
  "callback_rows tr = concat (map snd (submissions tr))"

definition sleeps :: "event list \<Rightarrow> nat" where
  "sleeps tr = length (filter (\<lambda>ev. ev = EvSleep 15) tr)"

text \<open>
  Whether a trace submits \<^verbatim>\<open>ROLLBACK TRANSACTION\<close> before it first closes a handle.
\<close>

fun rollback_before_close :: "event list \<Rightarrow> bool" where
  "rollback_before_close [] = False"
| "rollback_before_close (EvExec h t rows rc # tr) =
     (t = ''ROLLBACK TRANSACTION'' \<or> rollback_before_close tr)"
| "rollback_before_close (EvClose h # tr) = False"
| "rollback_before_close (ev # tr) = rollback_before_close tr"

text \<open>The handle is non-null exactly if the open flag is set.\<close>

definition handle_flag_inv :: "'e state \<Rightarrow> bool" where
  "handle_flag_inv s = (m_database s \<noteq> None \<longleftrightarrow> m_isOpened s)"

text \<open>
  The column-major layout: entry \<open>j\<close> holds column \<open>j\<close> of every invocation, in
  invocation order, a null pointer as the empty text.
\<close>

definition columns_of :: "nat \<Rightarrow> row list \<Rightarrow> string list list" where
  "columns_of n rows = map (\<lambda>j. map (\<lambda>d. cell (d ! j)) rows) [0..<n]"

text \<open>
  The row-major layout: one entry per invocation, as long as the invocation's count.
\<close>

definition row_major :: "row list \<Rightarrow> string list list \<Rightarrow> bool" where
  "row_major rows res = list_all2 (\<lambda>entry d. length entry = length d) res rows"

definition row_major_call :: "'e state \<Rightarrow> ((bool \<times> frame) \<times> 'e state) option \<Rightarrow> bool" where
  "row_major_call s r =
     (case r of
        Some ((ok, L), s1) \<Rightarrow> ok \<longrightarrow> row_major (callback_rows (emitted s s1)) (results L)
      | None \<Rightarrow> True)"

text \<open>
  The submissions that came back busy, and those that came back with an error (neither
  busy nor success).
\<close>

definition busy_submissions :: "event list \<Rightarrow> nat" where
  "busy_submissions tr = length (filter (\<lambda>x. fst x = SQLITE_BUSY) (submissions tr))"

definition failed_submissions :: "event list \<Rightarrow> nat" where
  "failed_submissions tr =
     length (filter (\<lambda>x. fst x \<noteq> SQLITE_BUSY \<and> fst x \<noteq> 0) (submissions tr))"

text \<open>An engine that answers every submission with \<^verbatim>\<open>SQLITE_BUSY\<close>.\<close>

definition always_busy :: "'e engine \<Rightarrow> bool" where
  "always_busy E = (\<forall>h t e. fst (sqlite3_a3d_exec E h t e) = SQLITE_BUSY)"

text \<open>
  Whether the engine answers a statement with something other than \<^verbatim>\<open>SQLITE_BUSY\<close> within
  \<open>n\<close> submissions from the engine state \<open>e\<close>; and an engine that, from every state,
  answers every statement in the end, so that it is never busy for ever.
\<close>

fun answers_within :: "'e engine \<Rightarrow> handle option \<Rightarrow> string \<Rightarrow> nat \<Rightarrow> 'e \<Rightarrow> bool" where
  "answers_within E h t 0 e = False"
| "answers_within E h t (Suc n) e =
     (case sqlite3_a3d_exec E h t e of (rc, rows, e1) \<Rightarrow>
        if rc = SQLITE_BUSY then answers_within E h t n e1 else True)"

definition answers_eventually :: "'e engine \<Rightarrow> bool" where
  "answers_eventually E = (\<forall>h t e. \<exists>n. answers_within E h t n e)"

section \<open>Stub engines\<close>

text \<open>
  \<open>busy_stub opn ac\<close> is busy for ever and delivers no row; every open returns the status
  and handle \<open>opn\<close>, and \<open>ac\<close> is its autocommit indicator.
\<close>

definition busy_stub :: "int \<times> handle option \<Rightarrow> int \<Rightarrow> unit engine" where
  "busy_stub opn ac =
     \<lparr>sqlite3_a3d_open_v2 = (\<lambda>p e. (fst opn, snd opn, e)),
      sqlite3_a3d_busy_timeout = (\<lambda>h ms e. e),
      sqlite3_a3d_close_v2 = (\<lambda>h e. e),
      sqlite3_a3d_exec = (\<lambda>h t e. (SQLITE_BUSY, [], e)),
      sqlite3_a3d_changes = (\<lambda>h e. 0),
      sqlite3_a3d_get_autocommit = (\<lambda>h e. ac),
      sqlite3_a3d_errmsg = (\<lambda>h e. ''database is locked'')\<rparr>"

text \<open>
  \<open>script_stub opn ac\<close> answers the submissions from a script, its engine state: the
  status and the rows of each submission in turn, and success without rows once the
  script is used up.
\<close>

definition script_stub :: "int \<times> handle option \<Rightarrow> int \<Rightarrow> (int \<times> row list) list engine" where
  "script_stub opn ac =
     \<lparr>sqlite3_a3d_open_v2 = (\<lambda>p e. (fst opn, snd opn, e)),
      sqlite3_a3d_busy_timeout = (\<lambda>h ms e. e),
      sqlite3_a3d_close_v2 = (\<lambda>h e. e),
      sqlite3_a3d_exec = (\<lambda>h t e. case e of [] \<Rightarrow> (0, [], []) | (rc, rows) # e1 \<Rightarrow> (rc, rows, e1)),
      sqlite3_a3d_changes = (\<lambda>h e. 0),
      sqlite3_a3d_get_autocommit = (\<lambda>h e. ac),
      sqlite3_a3d_errmsg = (\<lambda>h e. ''not an error'')\<rparr>"

text \<open>
  \<open>open_script_stub rc\<close> answers the opens from a script, its engine state: the status and
  the handle of each open in turn, and \<^verbatim>\<open>SQLITE_NOMEM\<close> (7) with a null handle once the
  script is used up. Every submission returns \<open>rc\<close> without rows.
\<close>

definition open_script_stub :: "int \<Rightarrow> (int \<times> handle option) list engine" where
  "open_script_stub rc =
     \<lparr>sqlite3_a3d_open_v2 =
        (\<lambda>p e. case e of [] \<Rightarrow> (7, None, []) | (orc, h) # e1 \<Rightarrow> (orc, h, e1)),
      sqlite3_a3d_busy_timeout = (\<lambda>h ms e. e),
      sqlite3_a3d_close_v2 = (\<lambda>h e. e),
      sqlite3_a3d_exec = (\<lambda>h t e. (rc, [], e)),
      sqlite3_a3d_changes = (\<lambda>h e. 0),
      sqlite3_a3d_get_autocommit = (\<lambda>h e. 1),
      sqlite3_a3d_errmsg = (\<lambda>h e. ''disk I/O error'')\<rparr>"

section \<open>The guard\<close>

text \<open>
  \<^verbatim>\<open>m_dbConnectionMutex\<close> is a \<^verbatim>\<open>std::shared_mutex\<close>. A call takes it exclusively
  (\<^verbatim>\<open>lock\<close>) or shared (\<^verbatim>\<open>lock_shared\<close>); \<open>guard_mode\<close> is the choice lines 136--144
  make for the submission.
\<close>

datatype mode = Shared | Exclusive

definition guard_mode :: "int option \<Rightarrow> mode" where
  "guard_mode pn = (if pn \<noteq> None then Exclusive else Shared)"

text \<open>
  What a thread holds of the guard after the events it has performed: nothing, or the
  guard in a mode, with whether it has submitted since it took it.
\<close>

datatype hold = Free | Held mode bool

fun hold_step :: "hold \<Rightarrow> event \<Rightarrow> hold" where
  "hold_step h EvLock = Held Exclusive False"
| "hold_step h EvLockShared = Held Shared False"
| "hold_step h EvUnlock = Free"
| "hold_step h EvUnlockShared = Free"
| "hold_step (Held m b) (EvExec x t rows rc) = Held m True"
| "hold_step h ev = h"

definition holding :: "event list \<Rightarrow> hold" where
  "holding tr = foldl hold_step Free tr"

text \<open>
  The discipline of a call whose submissions use mode \<open>m\<close>: the guard is taken only when
  not held, shared only if \<open>m\<close> is shared, and released in the mode it was taken in; a
  submission is made holding the guard in mode \<open>m\<close>, once per hold; the counter is
  read only under the exclusive hold that has just submitted; a handle is closed or opened
  only under an exclusive hold without submission (the reconnect); and everything else,
  the backoff sleep included, happens while the guard is not held. A whole trace follows
  the discipline if each event is permitted in turn and it ends holding nothing.
\<close>

fun permitted :: "mode \<Rightarrow> hold \<Rightarrow> event \<Rightarrow> bool" where
  "permitted m h EvLock = (h = Free)"
| "permitted m h EvLockShared = (h = Free \<and> m = Shared)"
| "permitted m h EvUnlock = (h = Held Exclusive False \<or> h = Held Exclusive True)"
| "permitted m h EvUnlockShared = (h = Held Shared False \<or> h = Held Shared True)"
| "permitted m h (EvExec x t rows rc) = (h = Held m False)"
| "permitted m h (EvChanges x) = (h = Held Exclusive True \<and> m = Exclusive)"
| "permitted m h (EvClose x) = (h = Held Exclusive False)"
| "permitted m h (EvOpen p x rc) = (h = Held Exclusive False)"
| "permitted m h ev = (h = Free)"

fun discipline :: "mode \<Rightarrow> hold \<Rightarrow> event list \<Rightarrow> bool" where
  "discipline m h [] = (h = Free)"
| "discipline m h (ev # tr) = (permitted m h ev \<and> discipline m (hold_step h ev) tr)"

text \<open>
  The guard itself, by the rules of \<^verbatim>\<open>std::shared_mutex\<close>: \<^verbatim>\<open>lock\<close> waits until nobody
  holds it, \<^verbatim>\<open>lock_shared\<close> until nobody holds it exclusively. An event that has to
  wait is not enabled.
\<close>

record guard =
  writer :: bool
  readers :: nat

fun enabled :: "guard \<Rightarrow> event \<Rightarrow> bool" where
  "enabled g EvLock = (\<not> writer g \<and> readers g = 0)"
| "enabled g EvLockShared = (\<not> writer g)"
| "enabled g ev = True"

fun guard_step :: "guard \<Rightarrow> event \<Rightarrow> guard" where
  "guard_step g EvLock = g\<lparr>writer := True\<rparr>"
| "guard_step g EvUnlock = g\<lparr>writer := False\<rparr>"
| "guard_step g EvLockShared = g\<lparr>readers := readers g + 1\<rparr>"
| "guard_step g EvUnlockShared = g\<lparr>readers := readers g - 1\<rparr>"
| "guard_step g ev = g"

text \<open>
  Threads running calls on one connection: the guard, and for each thread the events it
  has performed and those still to come. A step performs the next event of one thread
  if the guard enables it; a schedule names the thread of each step, and is impossible
  (\<open>None\<close>) when it asks a waiting or finished thread to step.
\<close>

record threads =
  the_guard :: guard
  performed :: "event list list"
  pending :: "event list list"

definition start :: "event list list \<Rightarrow> threads" where
  "start P = \<lparr>the_guard = \<lparr>writer = False, readers = 0\<rparr>, performed = map (\<lambda>p. []) P, pending = P\<rparr>"

definition thread_step :: "nat \<Rightarrow> threads \<Rightarrow> threads option" where
  "thread_step i \<sigma> =
     (if i < length (pending \<sigma>) then
        (case pending \<sigma> ! i of
           [] \<Rightarrow> None
         | ev # rest \<Rightarrow>
             if enabled (the_guard \<sigma>) ev
             then Some (\<sigma>\<lparr>the_guard := guard_step (the_guard \<sigma>) ev,
                          performed := (performed \<sigma>)[i := performed \<sigma> ! i @ [ev]],
                          pending := (pending \<sigma>)[i := rest]\<rparr>)
             else None)
      else None)"

fun schedule :: "nat list \<Rightarrow> threads \<Rightarrow> threads option" where
  "schedule [] \<sigma> = Some \<sigma>"
| "schedule (i # sched) \<sigma> =
     (case thread_step i \<sigma> of None \<Rightarrow> None | Some \<sigma>1 \<Rightarrow> schedule sched \<sigma>1)"

text \<open>The events of \<open>n\<close> calls, call \<open>k\<close> leading from state \<open>s k\<close> to state \<open>s1 k\<close>.\<close>

definition programs :: "nat \<Rightarrow> (nat \<Rightarrow> 'e state) \<Rightarrow> (nat \<Rightarrow> 'e state) \<Rightarrow> event list list" where
  "programs n s s1 = map (\<lambda>k. emitted (s k) (s1 k)) [0..<n]"

text \<open>The invariant of every schedule, counting the holders of each kind.\<close>

fun excl :: "hold \<Rightarrow> nat" where
  "excl (Held Exclusive b) = 1"
| "excl h = 0"

fun shar :: "hold \<Rightarrow> nat" where
  "shar (Held Shared b) = 1"
| "shar h = 0"

definition guard_inv :: "mode list \<Rightarrow> threads \<Rightarrow> bool" where
  "guard_inv ms \<sigma> =
     (length (performed \<sigma>) = length ms \<and> length (pending \<sigma>) = length ms
      \<and> (\<forall>i<length ms. discipline (ms ! i) (holding (performed \<sigma> ! i)) (pending \<sigma> ! i))
      \<and> (\<forall>i<length ms. ms ! i = Exclusive \<longrightarrow> shar (holding (performed \<sigma> ! i)) = 0)
      \<and> readers (the_guard \<sigma>) = sum_list (map (shar \<circ> holding) (performed \<sigma>))
      \<and> (if writer (the_guard \<sigma>) then 1 else 0) = sum_list (map (excl \<circ> holding) (performed \<sigma>))
      \<and> (writer (the_guard \<sigma>) \<longrightarrow> readers (the_guard \<sigma>) = 0))"

text \<open>
  Three calls on a fresh connection over the script stub, the first with a row-count slot.
\<close>

definition three_calls_slot :: "nat \<Rightarrow> int option" where
  "three_calls_slot k = (if k = 0 then Some 0 else None)"

definition three_calls ::
  "nat \<Rightarrow> ((bool \<times> frame) \<times> (int \<times> row list) list state) option" where
  "three_calls k =
     ExecStatement (script_stub (0, Some 2) 1) ''UPDATE t SET x = 1'' 0 [] True (three_calls_slot k)
       (SqliteWrapper_timeout (script_stub (0, Some 2) 1) ''db'' 3000 [])"

section \<open>Proof support\<close>

text \<open>What one pass through lines 136--162 appends to the trace.\<close>

definition submit_events :: "'e engine \<Rightarrow> string \<Rightarrow> frame \<times> 'e state \<Rightarrow> event list" where
  "submit_events E t c =
     (case sqlite3_a3d_exec E (m_database (snd c)) t (eng (snd c)) of (rc, rows, e1) \<Rightarrow>
        if pnUpdatedRows (fst c) \<noteq> None
        then [EvLock, EvExec (m_database (snd c)) t rows rc]
               @ (if rc = 0 then [EvChanges (m_database (snd c))] else []) @ [EvUnlock]
        else [EvLockShared, EvExec (m_database (snd c)) t rows rc, EvUnlockShared])"

text \<open>
  A bound on the iterations still to come when the budget is not 0: at most ten
  sleeps, one reconnect and one last submission.
\<close>

definition variant :: "frame \<Rightarrow> nat" where
  "variant L =
     (if loop_done L then 0
      else 1 + (if alreadyTriedReconnecting L then 0 else 1) + nat (10 - loop_i L))"

section \<open>Basic facts\<close>

lemma emit_simps [simp]:
  "m_isOpened (emit evs s) = m_isOpened s"
  "m_timeoutMs (emit evs s) = m_timeoutMs s"
  "m_databasePath (emit evs s) = m_databasePath s"
  "m_database (emit evs s) = m_database s"
  "eng (emit evs s) = eng s"
  "trace (emit evs s) = trace s @ evs"
  by (simp_all add: emit_def)

text \<open>
  The loop unfolds by one iteration. From this follow three rules: an invariant of the
  body holds when the loop returns; an invariant of the body with a decreasing measure
  makes the loop return; and an invariant that keeps \<^verbatim>\<open>done\<close> false makes it run for ever.
\<close>

lemma loop_stop: "loop_done (fst c) \<Longrightarrow> ExecStatement_loop E t r c = Some c"
  by (subst ExecStatement_loop.simps) simp

lemma loop_step:
  "\<not> loop_done (fst c) \<Longrightarrow>
   ExecStatement_loop E t r c = ExecStatement_loop E t r (ExecStatement_body E t r c)"
  by (subst ExecStatement_loop.simps) simp

lemma loop_invariant:
  assumes run: "ExecStatement_loop E t r c = Some c'"
    and init: "I c"
    and step: "\<And>d. I d \<Longrightarrow> \<not> loop_done (fst d) \<Longrightarrow> I (ExecStatement_body E t r d)"
  shows "I c' \<and> loop_done (fst c')"
proof -
  have "E' = E \<longrightarrow> t' = t \<longrightarrow> r' = r \<longrightarrow> I c \<longrightarrow> I c' \<and> loop_done (fst c')"
    if "ExecStatement_loop E' t' r' c = Some c'" for E' t' r'
    using that
  proof (induction rule: ExecStatement_loop.raw_induct [rotated 1, consumes 1])
    case (1 f E' t' r' c c')
    show ?case
    proof (cases "loop_done (fst c)")
      case True
      with 1(2) show ?thesis by simp
    next
      case False
      with 1(2) have "f E' t' r' (ExecStatement_body E' t' r' c) = Some c'" by simp
      from 1(1) [OF this] False show ?thesis by (auto intro: step)
    qed
  qed
  with run init show ?thesis by blast
qed

lemma loop_total:
  fixes m :: "frame \<times> 'e state \<Rightarrow> nat"
  assumes init: "I c"
    and step: "\<And>d. I d \<Longrightarrow> \<not> loop_done (fst d) \<Longrightarrow>
                 I (ExecStatement_body E t r d) \<and> m (ExecStatement_body E t r d) < m d"
  shows "\<exists>c'. ExecStatement_loop E t r c = Some c' \<and> I c' \<and> loop_done (fst c')"
  using init
proof (induction c rule: measure_induct_rule [where f = m])
  case (less c)
  show ?case
  proof (cases "loop_done (fst c)")
    case True
    with less.prems show ?thesis by (auto simp: loop_stop)
  next
    case False
    from step [OF less.prems False] less.IH [of "ExecStatement_body E t r c"]
    show ?thesis by (simp add: loop_step [OF False])
  qed
qed

lemma loop_diverges:
  assumes init: "I c"
    and step: "\<And>d. I d \<Longrightarrow> \<not> loop_done (fst d) \<and> I (ExecStatement_body E t r d)"
  shows "ExecStatement_loop E t r c = None"
proof (cases "ExecStatement_loop E t r c")
  case None
  then show ?thesis .
next
  case (Some c')
  from loop_invariant [OF Some, of I] init step have "I c' \<and> loop_done (fst c')"
    by blast
  with step show ?thesis by blast
qed

subsection \<open>What an iteration leaves unchanged\<close>

lemma submit_frame [simp]:
  "alreadyTriedReconnecting (fst (submit E t c)) = alreadyTriedReconnecting (fst c)"
  "loop_done (fst (submit E t c)) = loop_done (fst c)"
  "loop_i (fst (submit E t c)) = loop_i (fst c)"
  "retValue (fst (submit E t c)) = fst (sqlite3_a3d_exec E (m_database (snd c)) t (eng (snd c)))"
  by (auto simp: submit_def Let_def split: prod.splits)

lemma submit_state [simp]:
  "m_isOpened (snd (submit E t c)) = m_isOpened (snd c)"
  "m_timeoutMs (snd (submit E t c)) = m_timeoutMs (snd c)"
  "m_databasePath (snd (submit E t c)) = m_databasePath (snd c)"
  "m_database (snd (submit E t c)) = m_database (snd c)"
  by (auto simp: submit_def Let_def split: prod.splits)

lemma Reconnect_state [simp]:
  "m_isOpened (snd (Reconnect E s)) = m_isOpened s"
  "m_timeoutMs (snd (Reconnect E s)) = m_timeoutMs s"
  "m_databasePath (snd (Reconnect E s)) = m_databasePath s"
  by (auto simp: Reconnect_def Let_def split: prod.splits)

lemma reconnect_once_state [simp]:
  "m_isOpened (snd (reconnect_once E c)) = m_isOpened (snd c)"
  "m_timeoutMs (snd (reconnect_once E c)) = m_timeoutMs (snd c)"
  "m_databasePath (snd (reconnect_once E c)) = m_databasePath (snd c)"
  by (auto simp: reconnect_once_def split: prod.splits) (metis Reconnect_state snd_conv)+

lemma switch_status_state [simp]:
  "m_isOpened (snd (switch_status E r c)) = m_isOpened (snd c)"
  "m_timeoutMs (snd (switch_status E r c)) = m_timeoutMs (snd c)"
  "m_databasePath (snd (switch_status E r c)) = m_databasePath (snd c)"
  by (auto simp: switch_status_def LastErrorMessage_def Let_def split: prod.splits)

lemma body_state [simp]:
  "m_isOpened (snd (ExecStatement_body E t r c)) = m_isOpened (snd c)"
  "m_timeoutMs (snd (ExecStatement_body E t r c)) = m_timeoutMs (snd c)"
  "m_databasePath (snd (ExecStatement_body E t r c)) = m_databasePath (snd c)"
  by (simp_all add: ExecStatement_body_def)

subsection \<open>The counter stays small\<close>

text \<open>
  \<^verbatim>\<open>i\<close> never exceeds 12, whatever the engine answers, so the \<^verbatim>\<open>int\<close> of the source
  never overflows and is modelled by an integer.
\<close>

lemma body_counter:
  assumes "0 \<le> loop_i (fst c) \<and> loop_i (fst c) \<le> 12
           \<and> (\<not> loop_done (fst c) \<longrightarrow>
                 loop_i (fst c) \<le> 10 + (if alreadyTriedReconnecting (fst c) then 1 else 0))"
    and "\<not> loop_done (fst c)"
  shows "0 \<le> loop_i (fst (ExecStatement_body E t r c))
       \<and> loop_i (fst (ExecStatement_body E t r c)) \<le> 12
       \<and> (\<not> loop_done (fst (ExecStatement_body E t r c)) \<longrightarrow>
             loop_i (fst (ExecStatement_body E t r c))
               \<le> 10 + (if alreadyTriedReconnecting (fst (ExecStatement_body E t r c)) then 1 else 0))"
  using assms
  by (auto simp: ExecStatement_body_def switch_status_def reconnect_once_def LastErrorMessage_def
      split_beta Let_def)

lemma call_counter:
  assumes "ExecStatement E t rv res retry pn s = Some ((ok, L), s')"
  shows "0 \<le> loop_i L \<and> loop_i L \<le> 12"
proof (cases "IsReady s")
  case False
  with assms show ?thesis by (auto simp: ExecStatement_def frame0_def)
next
  case True
  with assms have run: "ExecStatement_loop E t retry (frame0 rv res pn, s) = Some (L, s')"
    by (auto simp: ExecStatement_def split: option.splits)
  let ?J = "\<lambda>d. 0 \<le> loop_i (fst d) \<and> loop_i (fst d) \<le> 12
      \<and> (\<not> loop_done (fst d) \<longrightarrow>
            loop_i (fst d) \<le> 10 + (if alreadyTriedReconnecting (fst d) then 1 else 0))"
  have "?J (L, s') \<and> loop_done (fst (L, s'))"
    by (rule loop_invariant [OF run, where I = ?J]) (simp add: frame0_def, rule body_counter)
  then show ?thesis by simp
qed

subsection \<open>The events of an iteration\<close>

lemma reconnects_simps [simp]:
  "reconnects [] = 0"
  "reconnects (ev # tr) = (if is_open ev then 1 else 0) + reconnects tr"
  "reconnects (tr @ tr') = reconnects tr + reconnects tr'"
  by (simp_all add: reconnects_def)

lemma submissions_simps [simp]:
  "submissions [] = []"
  "submissions (ev # tr) = submission ev @ submissions tr"
  "submissions (tr @ tr') = submissions tr @ submissions tr'"
  by (simp_all add: submissions_def)

lemma sleeps_simps [simp]:
  "sleeps [] = 0"
  "sleeps (ev # tr) = (if ev = EvSleep 15 then 1 else 0) + sleeps tr"
  "sleeps (tr @ tr') = sleeps tr + sleeps tr'"
  by (simp_all add: sleeps_def)

lemma emittedI: "trace s1 = trace s @ evs \<Longrightarrow> emitted s s1 = evs"
  by (simp add: emitted_def)

lemma submit_trace:
  "trace (snd (submit E t c)) = trace (snd c) @ submit_events E t c"
  by (auto simp: submit_def submit_events_def Let_def split: prod.splits)

lemma submit_results:
  "results (fst (submit E t c)) =
     foldl getResultsCallBack (results (fst c))
       (fst (snd (sqlite3_a3d_exec E (m_database (snd c)) t (eng (snd c)))))"
  by (auto simp: submit_def Let_def split: prod.splits)

lemma submit_events_obs [simp]:
  "reconnects (submit_events E t c) = 0"
  "sleeps (submit_events E t c) = 0"
  "submissions (submit_events E t c) =
     [(fst (sqlite3_a3d_exec E (m_database (snd c)) t (eng (snd c))),
       fst (snd (sqlite3_a3d_exec E (m_database (snd c)) t (eng (snd c)))))]"
  by (auto simp: submit_events_def split: prod.splits)

lemma Reconnect_trace:
  "\<exists>h rc. trace (snd (Reconnect E s)) =
     trace s @ [EvLock, EvClose (m_database s), EvOpen (m_databasePath s) h rc, EvUnlock]
     \<and> m_database (snd (Reconnect E s)) = h \<and> fst (Reconnect E s) = (rc = SQLITE_OK)"
  by (auto simp: Reconnect_def Let_def split: prod.splits)

lemma Reconnect_reconnects [simp]:
  "reconnects (trace (snd (Reconnect E s))) = reconnects (trace s) + 1"
  using Reconnect_trace [of E s] by auto

subsection \<open>A busy engine and a budget other than 0\<close>

lemma busy_body:
  assumes "always_busy E" "m_timeoutMs (snd c) \<noteq> 0" "\<not> loop_done (fst c)"
  shows "retValue (fst (ExecStatement_body E t r c)) = SQLITE_BUSY"
    and "reconnects (trace (snd (ExecStatement_body E t r c))) =
           reconnects (trace (snd c)) +
           (if alreadyTriedReconnecting (fst (ExecStatement_body E t r c))
               \<and> \<not> alreadyTriedReconnecting (fst c) then 1 else 0)"
    and "alreadyTriedReconnecting (fst c) \<Longrightarrow> alreadyTriedReconnecting (fst (ExecStatement_body E t r c))"
    and "loop_done (fst (ExecStatement_body E t r c)) \<Longrightarrow> alreadyTriedReconnecting (fst (ExecStatement_body E t r c))"
    and "variant (fst (ExecStatement_body E t r c)) < variant (fst c)"
  using assms
  by (auto simp: ExecStatement_body_def switch_status_def reconnect_once_def always_busy_def
      split_beta Let_def submit_trace variant_def SQLITE_BUSY_def)

lemma reconnect_once_trace_ext:
  "\<exists>evs. trace (snd (reconnect_once E c)) = trace (snd c) @ evs"
  using Reconnect_trace [of E "snd c"]
  by (auto simp: reconnect_once_def split_beta)

lemma switch_status_trace_ext:
  "\<exists>evs. trace (snd (switch_status E r c)) = trace (snd c) @ evs"
proof -
  have *: "\<exists>evs. trace (snd (reconnect_once E (L, s1))) = trace s @ evs"
    if "trace s1 = trace s @ evs1" for L s s1 evs1
    using reconnect_once_trace_ext [of E "(L, s1)"] that by auto
  show ?thesis
    by (auto simp: switch_status_def LastErrorMessage_def split_beta Let_def
        intro!: * reconnect_once_trace_ext)
qed

lemma body_trace_ext:
  "\<exists>evs. trace (snd (ExecStatement_body E t r c)) = trace (snd c) @ evs"
  using switch_status_trace_ext [of E r "submit E t c"]
  by (auto simp: ExecStatement_body_def submit_trace)

lemma loop_trace_ext:
  fixes E :: "'e engine"
  assumes "ExecStatement_loop E t r c = Some c'"
  shows "\<exists>evs. trace (snd c') = trace (snd c) @ evs"
proof -
  have "(\<exists>evs. trace (snd c') = trace (snd c) @ evs) \<and> loop_done (fst c')"
  proof (rule loop_invariant [OF assms])
    show "\<exists>evs. trace (snd c) = trace (snd c) @ evs" by simp
  next
    fix d :: "frame \<times> 'e state"
    assume "\<exists>evs. trace (snd d) = trace (snd c) @ evs"
    with body_trace_ext [of E t r d]
    show "\<exists>evs. trace (snd (ExecStatement_body E t r d)) = trace (snd c) @ evs" by auto
  qed
  then show ?thesis ..
qed

lemma loop_emitted:
  assumes "ExecStatement_loop E t r c = Some c'"
  shows "trace (snd c') = trace (snd c) @ emitted (snd c) (snd c')"
  using loop_trace_ext [OF assms] by (auto simp: emitted_def)

lemma body_variant:
  assumes "m_timeoutMs (snd c) \<noteq> 0" "\<not> loop_done (fst c)"
  shows "variant (fst (ExecStatement_body E t r c)) < variant (fst c)"
  using assms
  by (auto simp: ExecStatement_body_def switch_status_def reconnect_once_def
      split_beta Let_def variant_def)

lemma finite_budget_terminates:
  assumes "m_timeoutMs (snd c) \<noteq> 0"
  shows "\<exists>c'. ExecStatement_loop E t r c = Some c'"
proof -
  have "\<exists>c'. ExecStatement_loop E t r c = Some c' \<and> m_timeoutMs (snd c') \<noteq> 0 \<and> loop_done (fst c')"
    by (rule loop_total [where m = "\<lambda>d. variant (fst d)"]) (auto simp: assms body_variant)
  then show ?thesis by blast
qed

lemma busy_loop:
  fixes E :: "'e engine"
  assumes busy: "always_busy E" and budget: "m_timeoutMs (snd c) \<noteq> 0"
    and fresh: "\<not> loop_done (fst c)" "\<not> alreadyTriedReconnecting (fst c)"
  shows "\<exists>c'. ExecStatement_loop E t r c = Some c' \<and> retValue (fst c') = SQLITE_BUSY
           \<and> reconnects (emitted (snd c) (snd c')) = 1"
proof -
  let ?I = "\<lambda>d. m_timeoutMs (snd d) \<noteq> 0
      \<and> reconnects (trace (snd d)) =
          reconnects (trace (snd c)) + (if alreadyTriedReconnecting (fst d) then 1 else 0)
      \<and> (loop_done (fst d) \<longrightarrow> alreadyTriedReconnecting (fst d) \<and> retValue (fst d) = SQLITE_BUSY)"
  have "\<exists>c'. ExecStatement_loop E t r c = Some c' \<and> ?I c' \<and> loop_done (fst c')"
  proof (rule loop_total [where m = "\<lambda>d. variant (fst d)"])
    show "?I c" using budget fresh by simp
  next
    fix d :: "frame \<times> 'e state"
    assume d: "?I d" "\<not> loop_done (fst d)"
    then have b: "m_timeoutMs (snd d) \<noteq> 0" by simp
    from busy_body [OF busy b d(2), of t r] d(1)
    show "?I (ExecStatement_body E t r d)
            \<and> variant (fst (ExecStatement_body E t r d)) < variant (fst d)"
      by auto
  qed
  then obtain c' where run: "ExecStatement_loop E t r c = Some c'"
    and fin: "?I c'" "loop_done (fst c')" by blast
  have "reconnects (trace (snd c')) =
          reconnects (trace (snd c)) + reconnects (emitted (snd c) (snd c'))"
    by (subst loop_emitted [OF run]) simp
  with fin have "reconnects (emitted (snd c) (snd c')) = 1" by simp
  with run fin show ?thesis by blast
qed

lemma busy_stub_always_busy: "always_busy (busy_stub opn ac)"
  by (simp add: always_busy_def busy_stub_def)

subsection \<open>The budget 0\<close>

lemma busy_submissions_simps [simp]:
  "busy_submissions [] = 0"
  "busy_submissions (tr @ tr') = busy_submissions tr + busy_submissions tr'"
  by (simp_all add: busy_submissions_def)

lemma failed_submissions_simps [simp]:
  "failed_submissions [] = 0"
  "failed_submissions (tr @ tr') = failed_submissions tr + failed_submissions tr'"
  by (simp_all add: failed_submissions_def)

lemma busy_forever:
  fixes E :: "'e engine"
  assumes "always_busy E" "m_timeoutMs (snd c) = 0" "\<not> loop_done (fst c)"
  shows "ExecStatement_loop E t r c = None"
proof (rule loop_diverges [where I = "\<lambda>d. m_timeoutMs (snd d) = 0 \<and> \<not> loop_done (fst d)"])
  show "m_timeoutMs (snd c) = 0 \<and> \<not> loop_done (fst c)" using assms by simp
next
  fix d :: "frame \<times> 'e state"
  assume "m_timeoutMs (snd d) = 0 \<and> \<not> loop_done (fst d)"
  with assms(1)
  show "\<not> loop_done (fst d)
          \<and> m_timeoutMs (snd (ExecStatement_body E t r d)) = 0
          \<and> \<not> loop_done (fst (ExecStatement_body E t r d))"
    by (auto simp: ExecStatement_body_def switch_status_def always_busy_def split_beta)
qed

lemma busy_forever_call:
  assumes "always_busy E" "m_timeoutMs s = 0" "IsReady s"
  shows "ExecStatement E t rv res r pn s = None"
  using busy_forever [OF assms(1), of "(frame0 rv res pn, s)" t r] assms(2,3)
  by (simp add: ExecStatement_def frame0_def)

lemma Reconnect_obs [simp]:
  "sleeps (trace (snd (Reconnect E s))) = sleeps (trace s)"
  "submissions (trace (snd (Reconnect E s))) = submissions (trace s)"
  using Reconnect_trace [of E s] by auto

lemma body_budget0:
  assumes "m_timeoutMs (snd c) = 0"
  shows "sleeps (trace (snd (ExecStatement_body E t r c))) + busy_submissions (trace (snd c))
           = sleeps (trace (snd c)) + busy_submissions (trace (snd (ExecStatement_body E t r c)))"
    and "reconnects (trace (snd (ExecStatement_body E t r c))) + failed_submissions (trace (snd c))
           \<le> reconnects (trace (snd c)) + failed_submissions (trace (snd (ExecStatement_body E t r c)))"
    and "loop_done (fst (ExecStatement_body E t r c)) \<Longrightarrow> \<not> loop_done (fst c) \<Longrightarrow>
           retValue (fst (ExecStatement_body E t r c)) \<noteq> SQLITE_BUSY"
  using assms
  by (auto simp: ExecStatement_body_def switch_status_def reconnect_once_def LastErrorMessage_def
      split_beta Let_def submit_trace busy_submissions_def failed_submissions_def)

lemma budget0_loop:
  fixes E :: "'e engine"
  assumes run: "ExecStatement_loop E t r c = Some c'"
    and budget: "m_timeoutMs (snd c) = 0" and start: "\<not> loop_done (fst c)"
  shows "retValue (fst c') \<noteq> SQLITE_BUSY"
    and "sleeps (emitted (snd c) (snd c')) = busy_submissions (emitted (snd c) (snd c'))"
    and "reconnects (emitted (snd c) (snd c')) \<le> failed_submissions (emitted (snd c) (snd c'))"
proof -
  let ?I = "\<lambda>d. m_timeoutMs (snd d) = 0
      \<and> sleeps (trace (snd d)) + busy_submissions (trace (snd c))
          = sleeps (trace (snd c)) + busy_submissions (trace (snd d))
      \<and> reconnects (trace (snd d)) + failed_submissions (trace (snd c))
          \<le> reconnects (trace (snd c)) + failed_submissions (trace (snd d))
      \<and> (loop_done (fst d) \<longrightarrow> retValue (fst d) \<noteq> SQLITE_BUSY)"
  have "?I c' \<and> loop_done (fst c')"
  proof (rule loop_invariant [OF run])
    show "?I c" using budget start by simp
  next
    fix d :: "frame \<times> 'e state"
    assume d: "?I d" "\<not> loop_done (fst d)"
    then have b: "m_timeoutMs (snd d) = 0" by simp
    from body_budget0 [OF b, of E t r] d
    show "?I (ExecStatement_body E t r d)" by auto
  qed
  then have fin: "?I c'" "loop_done (fst c')" by blast+
  let ?ev = "emitted (snd c) (snd c')"
  have tr: "trace (snd c') = trace (snd c) @ ?ev" by (rule loop_emitted [OF run])
  have "sleeps (trace (snd c')) = sleeps (trace (snd c)) + sleeps ?ev"
    "busy_submissions (trace (snd c')) = busy_submissions (trace (snd c)) + busy_submissions ?ev"
    "reconnects (trace (snd c')) = reconnects (trace (snd c)) + reconnects ?ev"
    "failed_submissions (trace (snd c')) = failed_submissions (trace (snd c)) + failed_submissions ?ev"
    by (subst tr, simp)+
  with fin show "retValue (fst c') \<noteq> SQLITE_BUSY"
    and "sleeps ?ev = busy_submissions ?ev"
    and "reconnects ?ev \<le> failed_submissions ?ev"
    by simp_all
qed

subsection \<open>The row callback\<close>

text \<open>
  The callback's loop appends to each of the first \<^verbatim>\<open>count\<close> entries; folded over rows of
  one length, it builds the columns.
\<close>

lemma resize_length [simp]: "length (resize n xs) = n"
  by (simp add: resize_def)

lemma resize_id [simp]: "length xs = n \<Longrightarrow> resize n xs = xs"
  by (simp add: resize_def)

lemma resize_Nil_nth [simp]: "j < n \<Longrightarrow> resize n [] ! j = []"
  by (simp add: resize_def)

lemma push_columns_eq:
  "i \<le> n \<Longrightarrow> length res = n \<Longrightarrow>
   push_columns i n data res = take i res @ map (\<lambda>j. res ! j @ [cell (data ! j)]) [i..<n]"
proof (induction i n data res rule: push_columns.induct)
  case (1 i n data res)
  show ?case
  proof (cases "i < n")
    case True
    let ?res = "res[i := res ! i @ [cell (data ! i)]]"
    have "push_columns i n data res = push_columns (i + 1) n data ?res"
      using True by (subst push_columns.simps) simp
    also have "\<dots> = take (i + 1) ?res @ map (\<lambda>j. ?res ! j @ [cell (data ! j)]) [i + 1..<n]"
      using True 1 by simp
    also have "take (i + 1) ?res = take i res @ [res ! i @ [cell (data ! i)]]"
      using True 1(3) by (simp add: take_Suc_conv_app_nth)
    also have "map (\<lambda>j. ?res ! j @ [cell (data ! j)]) [i + 1..<n]
                 = map (\<lambda>j. res ! j @ [cell (data ! j)]) [i + 1..<n]"
      by (rule map_cong) auto
    finally show ?thesis using True by (simp add: upt_conv_Cons)
  next
    case False
    with 1(2,3) show ?thesis by (subst push_columns.simps) simp
  qed
qed

lemma getResultsCallBack_eq:
  "getResultsCallBack container data =
     map (\<lambda>j. resize (length data) container ! j @ [cell (data ! j)]) [0..<length data]"
  by (simp add: getResultsCallBack_def Let_def push_columns_eq)

lemma getResultsCallBack_length [simp]:
  "length (getResultsCallBack container data) = length data"
  by (simp add: getResultsCallBack_eq)

lemma getResultsCallBack_nth:
  "j < length data \<Longrightarrow>
   getResultsCallBack container data ! j = resize (length data) container ! j @ [cell (data ! j)]"
  by (simp add: getResultsCallBack_eq)

lemma foldl_callback_uniform:
  assumes "\<forall>d\<in>set rows. length d = n" and "rows \<noteq> []"
  shows "length (foldl getResultsCallBack container rows) = n
       \<and> (\<forall>j<n. foldl getResultsCallBack container rows ! j
                   = resize n container ! j @ map (\<lambda>d. cell (d ! j)) rows)"
  using assms
proof (induction rows rule: rev_induct)
  case Nil
  then show ?case by simp
next
  case (snoc d rows)
  then have d: "length d = n" by simp
  show ?case
  proof (cases "rows = []")
    case True
    with d show ?thesis by (simp add: getResultsCallBack_nth)
  next
    case False
    with snoc have "length (foldl getResultsCallBack container rows) = n"
      and "\<forall>j<n. foldl getResultsCallBack container rows ! j
                   = resize n container ! j @ map (\<lambda>d. cell (d ! j)) rows"
      by simp_all
    with d show ?thesis by (simp add: getResultsCallBack_nth)
  qed
qed

lemma foldl_callback_columns:
  assumes "\<forall>d\<in>set rows. length d = n" and "rows \<noteq> []"
  shows "foldl getResultsCallBack [] rows = columns_of n rows"
proof (rule nth_equalityI)
  show "length (foldl getResultsCallBack [] rows) = length (columns_of n rows)"
    using foldl_callback_uniform [OF assms, of "[]"] by (simp add: columns_of_def)
next
  fix j assume "j < length (foldl getResultsCallBack [] rows)"
  with foldl_callback_uniform [OF assms, of "[]"]
  show "foldl getResultsCallBack [] rows ! j = columns_of n rows ! j"
    by (simp add: columns_of_def)
qed

lemma callback_rows_simps [simp]:
  "callback_rows [] = []"
  "callback_rows (tr @ tr') = callback_rows tr @ callback_rows tr'"
  by (simp_all add: callback_rows_def)

lemma emitted_self [simp]: "emitted s s = []"
  by (simp add: emitted_def)

lemma reconnect_once_results:
  "\<exists>evs. trace (snd (reconnect_once E c)) = trace (snd c) @ evs \<and> submissions evs = []
         \<and> results (fst (reconnect_once E c)) = results (fst c)"
  using Reconnect_trace [of E "snd c"]
  by (auto simp: reconnect_once_def split_beta)

lemma switch_status_results:
  "\<exists>evs. trace (snd (switch_status E r c)) = trace (snd c) @ evs \<and> submissions evs = []
         \<and> results (fst (switch_status E r c)) = results (fst c)"
proof -
  have *: "\<exists>evs. trace (snd (reconnect_once E (L, s1))) = trace s @ evs \<and> submissions evs = []
             \<and> results (fst (reconnect_once E (L, s1))) = results L0"
    if "trace s1 = trace s @ evs1" "submissions evs1 = []" "results L = results L0"
    for L L0 s s1 evs1
    using reconnect_once_results [of E "(L, s1)"] that by auto
  show ?thesis
    unfolding switch_status_def LastErrorMessage_def split_beta Let_def
    by (auto intro!: * reconnect_once_results)
qed

lemma body_results:
  "\<exists>evs. trace (snd (ExecStatement_body E t r c)) = trace (snd c) @ evs
         \<and> results (fst (ExecStatement_body E t r c))
             = foldl getResultsCallBack (results (fst c)) (callback_rows evs)"
proof -
  from switch_status_results [of E r "submit E t c"]
  obtain evs where "trace (snd (ExecStatement_body E t r c)) = trace (snd c) @ submit_events E t c @ evs"
    and "submissions evs = []"
    and "results (fst (ExecStatement_body E t r c)) = results (fst (submit E t c))"
    by (auto simp: ExecStatement_body_def submit_trace)
  then show ?thesis
    by (intro exI [of _ "submit_events E t c @ evs"]) (simp add: submit_results callback_rows_def)
qed

lemma loop_results:
  fixes E :: "'e engine"
  assumes run: "ExecStatement_loop E t r c = Some c'"
  shows "results (fst c') =
           foldl getResultsCallBack (results (fst c)) (callback_rows (emitted (snd c) (snd c')))"
proof -
  let ?I = "\<lambda>d. \<exists>evs. trace (snd d) = trace (snd c) @ evs
      \<and> results (fst d) = foldl getResultsCallBack (results (fst c)) (callback_rows evs)"
  have "?I c' \<and> loop_done (fst c')"
  proof (rule loop_invariant [OF run])
    show "?I c" by simp
  next
    fix d :: "frame \<times> 'e state"
    assume "?I d"
    then obtain evs where evs: "trace (snd d) = trace (snd c) @ evs"
      "results (fst d) = foldl getResultsCallBack (results (fst c)) (callback_rows evs)"
      by blast
    from body_results [of E t r d] obtain bevs
      where bevs: "trace (snd (ExecStatement_body E t r d)) = trace (snd d) @ bevs"
        "results (fst (ExecStatement_body E t r d))
           = foldl getResultsCallBack (results (fst d)) (callback_rows bevs)"
      by blast
    from evs bevs show "?I (ExecStatement_body E t r d)"
      by (intro exI [of _ "evs @ bevs"]) simp
  qed
  then obtain evs where "trace (snd c') = trace (snd c) @ evs"
    and "results (fst c') = foldl getResultsCallBack (results (fst c)) (callback_rows evs)"
    by blast
  then show ?thesis by (simp add: emittedI)
qed

lemma call_results:
  assumes "ExecStatement E t rv res retry pn s = Some ((ok, L), s')"
  shows "results L = foldl getResultsCallBack res (callback_rows (emitted s s'))"
proof (cases "IsReady s")
  case False
  with assms show ?thesis by (auto simp: ExecStatement_def frame0_def)
next
  case True
  with assms have "ExecStatement_loop E t retry (frame0 rv res pn, s) = Some (L, s')"
    by (auto simp: ExecStatement_def split: option.splits)
  from loop_results [OF this] show ?thesis by (simp add: frame0_def)
qed

subsection \<open>The first events of a call\<close>

lemma loop_first_events:
  fixes E :: "'e engine"
  assumes run: "ExecStatement_loop E t r c = Some c'" and start: "\<not> loop_done (fst c)"
  shows "\<exists>rest. trace (snd c') = trace (snd c) @ submit_events E t c @ rest"
proof -
  from run start have "ExecStatement_loop E t r (ExecStatement_body E t r c) = Some c'"
    by (simp add: loop_step)
  from loop_trace_ext [OF this] obtain evs2
    where 2: "trace (snd c') = trace (snd (ExecStatement_body E t r c)) @ evs2" ..
  from switch_status_trace_ext [of E r "submit E t c"] obtain evs1
    where 1: "trace (snd (ExecStatement_body E t r c)) = trace (snd c) @ submit_events E t c @ evs1"
    by (auto simp: ExecStatement_body_def submit_trace)
  from 1 2 show ?thesis by simp
qed

lemma rollback_first_events:
  assumes "RollBackTransaction E s = Some (ok, s')" and "IsReady s"
  shows "\<exists>rows rc rest. trace s' =
           trace s @ [EvLockShared, EvExec (m_database s) ''ROLLBACK TRANSACTION'' rows rc,
                      EvUnlockShared] @ rest"
proof -
  from assms obtain L
    where "ExecStatement_loop E ''ROLLBACK TRANSACTION'' True (frame0 0 [] None, s) = Some (L, s')"
    by (auto simp: RollBackTransaction_def ExecStatement_def split: option.splits)
  from loop_first_events [OF this] show ?thesis
    by (auto simp: frame0_def submit_events_def split: prod.splits)
qed

subsection \<open>When the rollback returns\<close>

text \<open>
  With a budget of 0 the loop ends once the engine has answered twice with something
  other than busy, at the latest: the first such answer ends the call or leads to the one
  reconnect, the second ends it. So the call returns if the engine is never busy for
  ever; and if it is, destruction in a transaction does not return.
\<close>

lemma submit_eng:
  "eng (snd (submit E t c)) = snd (snd (sqlite3_a3d_exec E (m_database (snd c)) t (eng (snd c))))"
  by (auto simp: submit_def Let_def split: prod.splits)

lemma body_answer_budget0:
  assumes "m_timeoutMs (snd c) = 0"
    and "fst (sqlite3_a3d_exec E (m_database (snd c)) t (eng (snd c))) \<noteq> SQLITE_BUSY"
  shows "loop_done (fst (ExecStatement_body E t r c))
       \<or> (alreadyTriedReconnecting (fst (ExecStatement_body E t r c))
            \<and> \<not> alreadyTriedReconnecting (fst c))"
  using assms
  by (auto simp: ExecStatement_body_def switch_status_def reconnect_once_def LastErrorMessage_def
      split_beta Let_def)

lemma body_busy_budget0:
  assumes "m_timeoutMs (snd c) = 0"
    and "fst (sqlite3_a3d_exec E (m_database (snd c)) t (eng (snd c))) = SQLITE_BUSY"
  shows "loop_done (fst (ExecStatement_body E t r c)) = loop_done (fst c)"
    and "alreadyTriedReconnecting (fst (ExecStatement_body E t r c)) = alreadyTriedReconnecting (fst c)"
    and "m_database (snd (ExecStatement_body E t r c)) = m_database (snd c)"
    and "eng (snd (ExecStatement_body E t r c))
           = snd (snd (sqlite3_a3d_exec E (m_database (snd c)) t (eng (snd c))))"
  using assms
  by (auto simp: ExecStatement_body_def switch_status_def split_beta submit_eng)

lemma busy_stretch:
  fixes E :: "'e engine"
  assumes "answers_within E (m_database (snd c)) t n (eng (snd c))"
    and "m_timeoutMs (snd c) = 0" and "\<not> loop_done (fst c)"
  shows "\<exists>c1. ExecStatement_loop E t r c = ExecStatement_loop E t r c1
           \<and> m_timeoutMs (snd c1) = 0
           \<and> (loop_done (fst c1)
               \<or> (alreadyTriedReconnecting (fst c1) \<and> \<not> alreadyTriedReconnecting (fst c)))"
  using assms
proof (induction n arbitrary: c)
  case 0
  then show ?case by simp
next
  case (Suc n)
  let ?b = "ExecStatement_body E t r c"
  have step: "ExecStatement_loop E t r c = ExecStatement_loop E t r ?b"
    using Suc.prems(3) by (rule loop_step)
  have budget: "m_timeoutMs (snd ?b) = 0" using Suc.prems(2) by simp
  show ?case
  proof (cases "fst (sqlite3_a3d_exec E (m_database (snd c)) t (eng (snd c))) = SQLITE_BUSY")
    case False
    from body_answer_budget0 [OF Suc.prems(2) False, of r] step budget
    show ?thesis by blast
  next
    case True
    note b = body_busy_budget0 [OF Suc.prems(2) True, of r]
    from Suc.prems(1) True
    have "answers_within E (m_database (snd ?b)) t n (eng (snd ?b))"
      by (simp add: b split: prod.splits)
    from Suc.IH [OF this budget] b Suc.prems(3) step
    show ?thesis by auto
  qed
qed

lemma answering_engine_terminates:
  fixes E :: "'e engine"
  assumes ans: "answers_eventually E" and budget: "m_timeoutMs (snd c) = 0"
  shows "\<exists>c'. ExecStatement_loop E t r c = Some c'"
proof -
  have one: "\<exists>c1. ExecStatement_loop E t r d = ExecStatement_loop E t r c1
           \<and> m_timeoutMs (snd c1) = 0
           \<and> (loop_done (fst c1)
               \<or> (alreadyTriedReconnecting (fst c1) \<and> \<not> alreadyTriedReconnecting (fst d)))"
    if "m_timeoutMs (snd d) = 0" "\<not> loop_done (fst d)" for d :: "frame \<times> 'e state"
  proof -
    from ans obtain n where "answers_within E (m_database (snd d)) t n (eng (snd d))"
      unfolding answers_eventually_def by blast
    from busy_stretch [OF this that] show ?thesis .
  qed
  show ?thesis
  proof (cases "loop_done (fst c)")
    case True
    then show ?thesis by (simp add: loop_stop)
  next
    case False
    from one [OF budget False] obtain c1
      where 1: "ExecStatement_loop E t r c = ExecStatement_loop E t r c1" "m_timeoutMs (snd c1) = 0"
        "loop_done (fst c1) \<or> alreadyTriedReconnecting (fst c1)"
      by blast
    show ?thesis
    proof (cases "loop_done (fst c1)")
      case True
      with 1 show ?thesis by (simp add: loop_stop)
    next
      case False
      from one [OF 1(2) False] 1(3) False obtain c2
        where "ExecStatement_loop E t r c1 = ExecStatement_loop E t r c2" "loop_done (fst c2)"
        by blast
      with 1 show ?thesis by (simp add: loop_stop)
    qed
  qed
qed

lemma rollback_returns:
  assumes "m_timeoutMs s \<noteq> 0 \<or> answers_eventually E"
  shows "\<exists>ok s'. RollBackTransaction E s = Some (ok, s')"
proof -
  have "\<exists>c'. ExecStatement_loop E ''ROLLBACK TRANSACTION'' True (frame0 0 [] None, s) = Some c'"
  proof (cases "m_timeoutMs s = 0")
    case True
    with assms show ?thesis by (intro answering_engine_terminates) simp_all
  next
    case False
    then show ?thesis by (intro finite_budget_terminates) simp
  qed
  then obtain c' where "ExecStatement_loop E ''ROLLBACK TRANSACTION'' True (frame0 0 [] None, s) = Some c'"
    by blast
  then show ?thesis
    by (cases c') (auto simp: RollBackTransaction_def ExecStatement_def)
qed

lemma script_stub_answers: "answers_eventually (script_stub opn ac)"
  unfolding answers_eventually_def
proof (intro allI)
  fix h t and e :: "(int \<times> row list) list"
  show "\<exists>n. answers_within (script_stub opn ac) h t n e"
  proof (induction e)
    case Nil
    have "answers_within (script_stub opn ac) h t (Suc 0) []"
      by (simp add: script_stub_def SQLITE_BUSY_def)
    then show ?case ..
  next
    case (Cons a e)
    then obtain n where n: "answers_within (script_stub opn ac) h t n e" ..
    have "answers_within (script_stub opn ac) h t (Suc n) (a # e)"
      using n by (cases a) (simp add: script_stub_def)
    then show ?case ..
  qed
qed

lemma destroy_never_returns:
  assumes "always_busy E" and "m_timeoutMs s = 0" and "m_database s = Some h" and "IsReady s"
    and "sqlite3_a3d_get_autocommit E (Some h) (eng s) = 0"
  shows "DestroyDatabase E s = None"
proof -
  have "ExecStatement E ''ROLLBACK TRANSACTION'' 0 [] True None (snd (IsInTransaction E s)) = None"
    using assms by (intro busy_forever_call) (simp_all add: IsInTransaction_def IsReady_def)
  with assms show ?thesis
    by (simp add: DestroyDatabase_def RollBackTransaction_def IsInTransaction_def IsReady_def)
qed

subsection \<open>A budget that changes under a running call\<close>

lemma SetTimeout_simps [simp]:
  "m_timeoutMs (SetTimeout v s) = v"
  "m_isOpened (SetTimeout v s) = m_isOpened s"
  "m_database (SetTimeout v s) = m_database s"
  "m_databasePath (SetTimeout v s) = m_databasePath s"
  "eng (SetTimeout v s) = eng s"
  "trace (SetTimeout v s) = trace s"
  by (simp_all add: SetTimeout_def)

lemma busy_retValue:
  fixes E :: "'e engine"
  assumes busy: "always_busy E" and run: "ExecStatement_loop E t r c = Some c'"
    and start: "retValue (fst c) = SQLITE_BUSY"
  shows "retValue (fst c') = SQLITE_BUSY"
proof -
  have "retValue (fst c') = SQLITE_BUSY \<and> loop_done (fst c')"
  proof (rule loop_invariant [OF run])
    show "retValue (fst c) = SQLITE_BUSY" by (rule start)
  next
    fix d :: "frame \<times> 'e state"
    from busy show "retValue (fst (ExecStatement_body E t r d)) = SQLITE_BUSY"
      by (auto simp: ExecStatement_body_def switch_status_def reconnect_once_def always_busy_def
          split_beta Let_def)
  qed
  then show ?thesis ..
qed

lemma busy_body_budget0:
  assumes "always_busy E" "m_timeoutMs (snd c) = 0"
  shows "retValue (fst (ExecStatement_body E t r c)) = SQLITE_BUSY"
    and "loop_done (fst (ExecStatement_body E t r c)) = loop_done (fst c)"
    and "m_timeoutMs (snd (ExecStatement_body E t r c)) = 0"
  using assms
  by (auto simp: ExecStatement_body_def switch_status_def always_busy_def split_beta)

subsection \<open>Schedules keep the guard's invariant\<close>

lemma holding_snoc [simp]: "holding (tr @ [ev]) = hold_step (holding tr) ev"
  by (simp add: holding_def)

lemma holding_Nil [simp]: "holding [] = Free"
  by (simp add: holding_def)

lemma sum_list_map_update:
  fixes f :: "'a \<Rightarrow> nat"
  shows "i < length xs \<Longrightarrow>
   sum_list (map f (xs[i := y])) + f (xs ! i) = sum_list (map f xs) + f y"
  by (induction xs arbitrary: i) (auto split: nat.splits)

lemma guard_inv_start:
  assumes "length ms = length P" "\<forall>i<length P. discipline (ms ! i) Free (P ! i)"
  shows "guard_inv ms (start P)"
proof -
  have "sum_list (map (\<lambda>p. 0::nat) P) = 0" by (induction P) auto
  with assms show ?thesis by (simp add: guard_inv_def start_def comp_def)
qed

lemma step_effect:
  assumes "permitted m h ev" and "enabled g ev"
    and "m = Exclusive \<longrightarrow> shar h = 0"
    and "writer g \<longrightarrow> readers g = 0"
    and "shar h \<le> readers g" and "excl h \<le> (if writer g then 1 else 0)"
  shows "readers (guard_step g ev) + shar h = readers g + shar (hold_step h ev)"
    and "(if writer (guard_step g ev) then 1 else 0) + excl h
           = (if writer g then 1 else 0) + excl (hold_step h ev)"
    and "writer (guard_step g ev) \<longrightarrow> readers (guard_step g ev) = 0"
    and "m = Exclusive \<longrightarrow> shar (hold_step h ev) = 0"
  using assms by (cases ev; cases h; cases m; auto split: if_splits)+

lemma two_le_sum_list:
  fixes ys :: "nat list"
  shows "i < length ys \<Longrightarrow> j < length ys \<Longrightarrow> i \<noteq> j \<Longrightarrow> ys ! i + ys ! j \<le> sum_list ys"
proof (induction ys arbitrary: i j)
  case Nil
  then show ?case by simp
next
  case (Cons y ys)
  show ?case
  proof (cases i)
    case 0
    with Cons.prems obtain j' where "j = Suc j'" "j' < length ys" by (cases j) auto
    with 0 elem_le_sum_list [of j' ys] show ?thesis by simp
  next
    case (Suc i')
    show ?thesis
    proof (cases j)
      case 0
      with Suc Cons.prems elem_le_sum_list [of i' ys] show ?thesis by simp
    next
      case (Suc j')
      with \<open>i = Suc i'\<close> Cons.prems Cons.IH [of i' j'] show ?thesis by simp
    qed
  qed
qed

lemma free_iff: "h = Free \<longleftrightarrow> excl h = 0 \<and> shar h = 0"
  by (cases h rule: excl.cases) auto

lemma guard_inv_step:
  assumes inv: "guard_inv ms \<sigma>" and step: "thread_step i \<sigma> = Some \<sigma>1"
  shows "guard_inv ms \<sigma>1"
proof -
  from step obtain ev rest where i: "i < length (pending \<sigma>)"
    and pend: "pending \<sigma> ! i = ev # rest" and en: "enabled (the_guard \<sigma>) ev"
    and s1: "\<sigma>1 = \<sigma>\<lparr>the_guard := guard_step (the_guard \<sigma>) ev,
                        performed := (performed \<sigma>)[i := performed \<sigma> ! i @ [ev]],
                        pending := (pending \<sigma>)[i := rest]\<rparr>"
    by (auto simp: thread_step_def split: if_splits list.splits)
  let ?g = "the_guard \<sigma>" and ?h = "holding (performed \<sigma> ! i)" and ?m = "ms ! i"
  from inv have len: "length (performed \<sigma>) = length ms" "length (pending \<sigma>) = length ms"
    and disc: "\<forall>k<length ms. discipline (ms ! k) (holding (performed \<sigma> ! k)) (pending \<sigma> ! k)"
    and ex: "\<forall>k<length ms. ms ! k = Exclusive \<longrightarrow> shar (holding (performed \<sigma> ! k)) = 0"
    and rd: "readers ?g = sum_list (map (shar \<circ> holding) (performed \<sigma>))"
    and wr: "(if writer ?g then 1 else 0) = sum_list (map (excl \<circ> holding) (performed \<sigma>))"
    and wrd: "writer ?g \<longrightarrow> readers ?g = 0"
    unfolding guard_inv_def by blast+
  from i len have i': "i < length ms" "i < length (performed \<sigma>)" by simp_all
  from disc i' pend have perm: "permitted ?m ?h ev" and rest: "discipline ?m (hold_step ?h ev) rest"
    by auto
  from elem_le_sum_list [of i "map (shar \<circ> holding) (performed \<sigma>)"] i' rd
  have le1: "shar ?h \<le> readers ?g" by simp
  from elem_le_sum_list [of i "map (excl \<circ> holding) (performed \<sigma>)"] i' wr
  have le2: "excl ?h \<le> (if writer ?g then 1 else 0)" by simp
  from ex i' have ex_i: "?m = Exclusive \<longrightarrow> shar ?h = 0" by simp
  note eff = step_effect [OF perm en ex_i wrd le1 le2]
  let ?perf = "(performed \<sigma>)[i := performed \<sigma> ! i @ [ev]]"
  from sum_list_map_update [of i "performed \<sigma>" "shar \<circ> holding" "performed \<sigma> ! i @ [ev]"] i'
  have "sum_list (map (shar \<circ> holding) ?perf) + shar ?h
          = sum_list (map (shar \<circ> holding) (performed \<sigma>)) + shar (hold_step ?h ev)"
    by simp
  with eff(1) rd have rd1: "readers (guard_step ?g ev) = sum_list (map (shar \<circ> holding) ?perf)"
    by simp
  from sum_list_map_update [of i "performed \<sigma>" "excl \<circ> holding" "performed \<sigma> ! i @ [ev]"] i'
  have "sum_list (map (excl \<circ> holding) ?perf) + excl ?h
          = sum_list (map (excl \<circ> holding) (performed \<sigma>)) + excl (hold_step ?h ev)"
    by simp
  with eff(2) wr
  have wr1: "(if writer (guard_step ?g ev) then 1 else 0) = sum_list (map (excl \<circ> holding) ?perf)"
    by simp
  have disc1: "\<forall>k<length ms. discipline (ms ! k) (holding (?perf ! k)) ((pending \<sigma>)[i := rest] ! k)"
    using disc rest i' len by (auto simp: nth_list_update)
  have ex1: "\<forall>k<length ms. ms ! k = Exclusive \<longrightarrow> shar (holding (?perf ! k)) = 0"
    using ex eff(4) i' by (auto simp: nth_list_update)
  from len rd1 wr1 eff(3) disc1 ex1 show ?thesis
    unfolding s1 guard_inv_def by simp
qed

lemma guard_inv_schedule:
  assumes "schedule sched \<sigma> = Some \<sigma>1" and "guard_inv ms \<sigma>"
  shows "guard_inv ms \<sigma>1"
  using assms
  by (induction sched arbitrary: \<sigma>) (auto split: option.splits dest: guard_inv_step)

lemma exclusive_holder_alone:
  assumes inv: "guard_inv ms \<sigma>" and ij: "i < length ms" "j < length ms" "i \<noteq> j"
    and hold: "excl (holding (performed \<sigma> ! i)) = 1"
  shows "holding (performed \<sigma> ! j) = Free"
proof -
  let ?g = "the_guard \<sigma>"
  from inv have len: "length (performed \<sigma>) = length ms"
    and rd: "readers ?g = sum_list (map (shar \<circ> holding) (performed \<sigma>))"
    and wr: "(if writer ?g then 1 else 0) = sum_list (map (excl \<circ> holding) (performed \<sigma>))"
    and wrd: "writer ?g \<longrightarrow> readers ?g = 0"
    unfolding guard_inv_def by blast+
  from two_le_sum_list [of i "map (excl \<circ> holding) (performed \<sigma>)" j] ij len wr hold
  have w: "writer ?g" and e: "excl (holding (performed \<sigma> ! j)) = 0"
    by (auto split: if_splits)
  from w wrd rd have "sum_list (map (shar \<circ> holding) (performed \<sigma>)) = 0" by simp
  with elem_le_sum_list [of j "map (shar \<circ> holding) (performed \<sigma>)"] ij len
  have "shar (holding (performed \<sigma> ! j)) = 0" by simp
  with e show ?thesis by (simp add: free_iff)
qed

subsection \<open>Calls follow the discipline\<close>

lemma discipline_append:
  "discipline m h tr \<Longrightarrow> discipline m Free tr' \<Longrightarrow> discipline m h (tr @ tr')"
  by (induction tr arbitrary: h) auto

lemma submit_discipline:
  "discipline (guard_mode (pnUpdatedRows (fst c))) Free (submit_events E t c)"
  by (auto simp: submit_events_def guard_mode_def split: prod.splits)

lemma submit_slot [simp]:
  "pnUpdatedRows (fst (submit E t c)) = None \<longleftrightarrow> pnUpdatedRows (fst c) = None"
  by (auto simp: submit_def Let_def split: prod.splits)

lemma reconnect_once_discipline:
  "\<exists>evs. trace (snd (reconnect_once E c)) = trace (snd c) @ evs \<and> discipline m Free evs
         \<and> pnUpdatedRows (fst (reconnect_once E c)) = pnUpdatedRows (fst c)"
  using Reconnect_trace [of E "snd c"]
  by (auto simp: reconnect_once_def split_beta)

lemma switch_status_discipline:
  "\<exists>evs. trace (snd (switch_status E r c)) = trace (snd c) @ evs \<and> discipline m Free evs
         \<and> pnUpdatedRows (fst (switch_status E r c)) = pnUpdatedRows (fst c)"
proof -
  have *: "\<exists>evs. trace (snd (reconnect_once E (L, s1))) = trace s @ evs \<and> discipline m Free evs
             \<and> pnUpdatedRows (fst (reconnect_once E (L, s1))) = pn"
    if "trace s1 = trace s @ evs1" "discipline m Free evs1" "pnUpdatedRows L = pn"
    for L s s1 evs1 pn
  proof -
    from reconnect_once_discipline [of E "(L, s1)" m] obtain evs
      where "trace (snd (reconnect_once E (L, s1))) = trace s1 @ evs" "discipline m Free evs"
        "pnUpdatedRows (fst (reconnect_once E (L, s1))) = pnUpdatedRows L"
      by auto
    with that show ?thesis
      by (intro exI [of _ "evs1 @ evs"]) (simp add: discipline_append)
  qed
  show ?thesis
    unfolding switch_status_def LastErrorMessage_def split_beta Let_def
    by (auto intro!: * reconnect_once_discipline)
qed

lemma body_discipline:
  "\<exists>evs. trace (snd (ExecStatement_body E t r c)) = trace (snd c) @ evs
         \<and> discipline (guard_mode (pnUpdatedRows (fst c))) Free evs
         \<and> (pnUpdatedRows (fst (ExecStatement_body E t r c)) = None \<longleftrightarrow> pnUpdatedRows (fst c) = None)"
proof -
  let ?m = "guard_mode (pnUpdatedRows (fst c))"
  from switch_status_discipline [of E r "submit E t c" ?m]
  obtain evs where "trace (snd (ExecStatement_body E t r c)) = trace (snd c) @ submit_events E t c @ evs"
    and "discipline ?m Free evs"
    and "pnUpdatedRows (fst (ExecStatement_body E t r c)) = pnUpdatedRows (fst (submit E t c))"
    by (auto simp: ExecStatement_body_def submit_trace)
  then show ?thesis
    by (intro exI [of _ "submit_events E t c @ evs"])
       (simp add: discipline_append submit_discipline)
qed

lemma loop_discipline:
  fixes E :: "'e engine"
  assumes run: "ExecStatement_loop E t r c = Some c'"
  shows "discipline (guard_mode (pnUpdatedRows (fst c))) Free (emitted (snd c) (snd c'))"
proof -
  let ?m = "guard_mode (pnUpdatedRows (fst c))"
  let ?I = "\<lambda>d. (\<exists>evs. trace (snd d) = trace (snd c) @ evs \<and> discipline ?m Free evs)
      \<and> guard_mode (pnUpdatedRows (fst d)) = ?m"
  have "?I c' \<and> loop_done (fst c')"
  proof (rule loop_invariant [OF run])
    show "?I c" by simp
  next
    fix d :: "frame \<times> 'e state"
    assume d: "?I d"
    then obtain evs where evs: "trace (snd d) = trace (snd c) @ evs" "discipline ?m Free evs"
      by blast
    from body_discipline [of E t r d] d obtain bevs
      where bevs: "trace (snd (ExecStatement_body E t r d)) = trace (snd d) @ bevs"
        "discipline ?m Free bevs"
        "guard_mode (pnUpdatedRows (fst (ExecStatement_body E t r d))) = ?m"
      by (auto simp: guard_mode_def)
    from evs bevs show "?I (ExecStatement_body E t r d)"
      by (auto intro!: exI [of _ "evs @ bevs"] simp: discipline_append)
  qed
  then obtain evs where "trace (snd c') = trace (snd c) @ evs" "discipline ?m Free evs"
    by blast
  then show ?thesis by (simp add: emittedI)
qed

lemma call_discipline:
  assumes "ExecStatement E t rv res retry pn s = Some (x, s')"
  shows "discipline (guard_mode pn) Free (emitted s s')"
proof (cases "IsReady s")
  case False
  with assms show ?thesis by (auto simp: ExecStatement_def)
next
  case True
  with assms obtain L where "ExecStatement_loop E t retry (frame0 rv res pn, s) = Some (L, s')"
    by (auto simp: ExecStatement_def split: option.splits)
  from loop_discipline [OF this] show ?thesis by (simp add: frame0_def)
qed

lemma call_first_events:
  assumes "ExecStatement E t rv res retry None s = Some (x, s')" and "IsReady s"
  shows "\<exists>rows rc rest. emitted s s' = EvLockShared # EvExec (m_database s) t rows rc # rest"
proof -
  from assms obtain L where "ExecStatement_loop E t retry (frame0 rv res None, s) = Some (L, s')"
    by (auto simp: ExecStatement_def split: option.splits)
  from loop_first_events [OF this]
  obtain rest where "trace s' = trace s @ submit_events E t (frame0 rv res None, s) @ rest"
    by (auto simp: frame0_def)
  then have "emitted s s' = submit_events E t (frame0 rv res None, s) @ rest"
    by (intro emittedI) simp
  then show ?thesis
    by (auto simp: submit_events_def frame0_def split: prod.splits)
qed

lemma programs_nth [simp]: "k < n \<Longrightarrow> programs n s s1 ! k = emitted (s k) (s1 k)"
  by (simp add: programs_def)

lemma programs_length [simp]: "length (programs n s s1) = n"
  by (simp add: programs_def)

lemma two_shared_overlap:
  assumes "i < length P" "j < length P" "i \<noteq> j"
    and "P ! i = EvLockShared # EvExec hi ti rowsi rci # resti"
    and "P ! j = EvLockShared # EvExec hj tj rowsj rcj # restj"
  shows "\<exists>\<sigma>. schedule [i, i, j, j] (start P) = Some \<sigma>
           \<and> holding (performed \<sigma> ! i) = Held Shared True
           \<and> holding (performed \<sigma> ! j) = Held Shared True"
  using assms by (simp add: thread_step_def start_def nth_list_update holding_def)

section \<open>The result container\<close>

text \<open>
  C1, as amended. For a call that returns success on a container passed in empty, if
  every invocation of the row callback during the call reported the same column count
  \<open>n\<close>, the container holds one entry per column: \<open>n\<close> entries (none if the callback was
  never invoked), entry \<open>j\<close> holding one cell per invocation, in invocation order, namely
  column \<open>j\<close> of that invocation, with the empty text where the engine passed a null
  pointer (\<open>cell\<close>), so no cell is missing.
\<close>

theorem results_are_columns:
  assumes "ExecStatement E t rv [] retry pn s = Some ((True, L), s')"
    and "\<forall>d\<in>set (callback_rows (emitted s s')). length d = n"
  shows "results L =
           (if callback_rows (emitted s s') = [] then []
            else columns_of n (callback_rows (emitted s s')))"
  using call_results [OF assms(1)] foldl_callback_columns [OF assms(2)] by simp

text \<open>
  The amended C1 on three rows of two columns, one value of them null.
\<close>

theorem results_are_columns_witness:
  "\<exists>L s'. ExecStatement (script_stub (0, Some 2) 1) ''SELECT x, y FROM t'' 0 [] True None
             (SqliteWrapper_timeout (script_stub (0, Some 2) 1) ''db'' 3000
                [(0, [[Some ''a'', Some ''b''], [Some ''c'', None], [Some ''e'', Some ''f'']])])
           = Some ((True, L), s')
         \<and> callback_rows (emitted (SqliteWrapper_timeout (script_stub (0, Some 2) 1) ''db'' 3000
                [(0, [[Some ''a'', Some ''b''], [Some ''c'', None], [Some ''e'', Some ''f'']])]) s')
             = [[Some ''a'', Some ''b''], [Some ''c'', None], [Some ''e'', Some ''f'']]
         \<and> results L = [[''a'', ''c'', ''e''], [''b'', [], ''f'']]"
proof -
  let ?S = "script_stub (0, Some 2) 1"
  let ?rows = "[[Some ''a'', Some ''b''], [Some ''c'', None], [Some ''e'', Some ''f'']]"
  let ?s = "SqliteWrapper_timeout ?S ''db'' 3000 [(0, ?rows)]"
  have "map_option (\<lambda>x. (fst (fst x), callback_rows (emitted ?s (snd x))))
          (ExecStatement ?S ''SELECT x, y FROM t'' 0 [] True None ?s) = Some (True, ?rows)"
    by code_simp
  then obtain L s' where run: "ExecStatement ?S ''SELECT x, y FROM t'' 0 [] True None ?s = Some ((True, L), s')"
    and rows: "callback_rows (emitted ?s s') = ?rows"
    by auto
  have "\<forall>d\<in>set (callback_rows (emitted ?s s')). length d = 2"
    by (simp add: rows)
  from results_are_columns [OF run this]
  have "results L = columns_of 2 ?rows" by (simp add: rows)
  also have "\<dots> = [[''a'', ''c'', ''e''], [''b'', [], ''f'']]"
    by code_simp
  finally show ?thesis using run rows by blast
qed

text \<open>
  C1 as stated fails on the same call. The engine invokes the callback three times with a
  count of 2; the call succeeds, and the container has two entries of three cells, not
  three entries of two cells. This is the layout the header documents: each column has
  its vector, the first column at \<^verbatim>\<open>results[0]\<close>.
\<close>

theorem rows_are_not_entries:
  "map_option (results \<circ> snd \<circ> fst)
     (ExecStatement (script_stub (0, Some 2) 1) ''SELECT x, y FROM t'' 0 [] True None
        (SqliteWrapper_timeout (script_stub (0, Some 2) 1) ''db'' 3000
           [(0, [[Some ''a'', Some ''b''], [Some ''c'', None], [Some ''e'', Some ''f'']])]))
     = Some [[''a'', ''c'', ''e''], [''b'', [], ''f'']]
   \<and> \<not> row_major_call
         (SqliteWrapper_timeout (script_stub (0, Some 2) 1) ''db'' 3000
           [(0, [[Some ''a'', Some ''b''], [Some ''c'', None], [Some ''e'', Some ''f'']])])
         (ExecStatement (script_stub (0, Some 2) 1) ''SELECT x, y FROM t'' 0 [] True None
            (SqliteWrapper_timeout (script_stub (0, Some 2) 1) ''db'' 3000
               [(0, [[Some ''a'', Some ''b''], [Some ''c'', None], [Some ''e'', Some ''f'']])]))"
  by code_simp



section \<open>Handle and open flag\<close>

text \<open>
  C2 at two inputs. First, a connection opened on handle 1 whose engine then fails every
  submission with \<^verbatim>\<open>SQLITE_IOERR\<close> (10) and fails the reconnect's open with
  \<^verbatim>\<open>SQLITE_NOMEM\<close> (7), storing a null handle: the invariant holds before the call, the
  call reports failure, and afterwards the open flag is still set while the handle is
  null. Second, a construction whose open fails with \<^verbatim>\<open>SQLITE_CANTOPEN\<close> (14) while
  storing a handle, as the engine does whenever it can allocate one: the handle is
  non-null while the open flag is clear.
\<close>

theorem failed_open_breaks_handle_flag:
  "handle_flag_inv (SqliteWrapper_timeout (open_script_stub 10) ''db'' 3000 [(0, Some 1), (7, None)])
   \<and> map_option (fst \<circ> fst)
        (ExecStatement (open_script_stub 10) ''SELECT 1'' 0 [] True None
           (SqliteWrapper_timeout (open_script_stub 10) ''db'' 3000 [(0, Some 1), (7, None)]))
       = Some False
   \<and> map_option (m_isOpened \<circ> snd)
        (ExecStatement (open_script_stub 10) ''SELECT 1'' 0 [] True None
           (SqliteWrapper_timeout (open_script_stub 10) ''db'' 3000 [(0, Some 1), (7, None)]))
       = Some True
   \<and> map_option (m_database \<circ> snd)
        (ExecStatement (open_script_stub 10) ''SELECT 1'' 0 [] True None
           (SqliteWrapper_timeout (open_script_stub 10) ''db'' 3000 [(0, Some 1), (7, None)]))
       = Some None
   \<and> map_option (handle_flag_inv \<circ> snd)
        (ExecStatement (open_script_stub 10) ''SELECT 1'' 0 [] True None
           (SqliteWrapper_timeout (open_script_stub 10) ''db'' 3000 [(0, Some 1), (7, None)]))
       = Some False
   \<and> m_database (SqliteWrapper_timeout (open_script_stub 10) ''db'' 3000 [(14, Some 1)]) = Some 1
   \<and> \<not> m_isOpened (SqliteWrapper_timeout (open_script_stub 10) ''db'' 3000 [(14, Some 1)])
   \<and> \<not> handle_flag_inv (SqliteWrapper_timeout (open_script_stub 10) ''db'' 3000 [(14, Some 1)])"
  by code_simp

section \<open>Reconnect\<close>

text \<open>
  C3, as amended. Whatever the state of the connection, with a transaction in flight or
  without, \<^verbatim>\<open>Reconnect\<close> submits no statement and so attempts no rollback: under the
  exclusive guard it closes the old handle, opens a new one, and returns whether the open
  succeeded.
\<close>

theorem reconnect_submits_nothing:
  "\<exists>rc. emitted s (snd (Reconnect E s)) =
          [EvLock, EvClose (m_database s),
           EvOpen (m_databasePath s) (m_database (snd (Reconnect E s))) rc, EvUnlock]
        \<and> fst (Reconnect E s) = (rc = SQLITE_OK)
        \<and> submissions (emitted s (snd (Reconnect E s))) = []
        \<and> \<not> rollback_before_close (emitted s (snd (Reconnect E s)))"
proof -
  from Reconnect_trace [of E s] obtain h rc
    where tr: "trace (snd (Reconnect E s)) =
        trace s @ [EvLock, EvClose (m_database s), EvOpen (m_databasePath s) h rc, EvUnlock]"
      and h: "m_database (snd (Reconnect E s)) = h" and ok: "fst (Reconnect E s) = (rc = SQLITE_OK)"
    by blast
  from emittedI [OF tr] h ok show ?thesis by simp
qed

text \<open>
  C3 as stated fails: on a connection whose engine reports a transaction in flight,
  \<^verbatim>\<open>Reconnect\<close> closes the handle without a rollback attempt before it.
\<close>

theorem reconnect_in_transaction_no_rollback:
  "fst (IsInTransaction (busy_stub (0, Some 2) 0)
          (SqliteWrapper_timeout (busy_stub (0, Some 2) 0) ''db'' 3000 ()))
   \<and> emitted (SqliteWrapper_timeout (busy_stub (0, Some 2) 0) ''db'' 3000 ())
        (snd (Reconnect (busy_stub (0, Some 2) 0)
               (SqliteWrapper_timeout (busy_stub (0, Some 2) 0) ''db'' 3000 ())))
       = [EvLock, EvClose (Some 2), EvOpen ''db'' (Some 2) 0, EvUnlock]
   \<and> \<not> rollback_before_close
         (emitted (SqliteWrapper_timeout (busy_stub (0, Some 2) 0) ''db'' 3000 ())
            (snd (Reconnect (busy_stub (0, Some 2) 0)
                   (SqliteWrapper_timeout (busy_stub (0, Some 2) 0) ''db'' 3000 ()))))"
  by code_simp

section \<open>Busy engines and the retry budget\<close>

text \<open>
  C4. On a ready connection with a budget other than 0, a call with the retry flag set
  against an engine that answers every submission with \<^verbatim>\<open>SQLITE_BUSY\<close>, before and
  after the reconnect, returns; it reports failure with the busy status, and exactly one
  \<^verbatim>\<open>Reconnect\<close> was attempted during the call.
\<close>

theorem busy_retry_reconnects_once:
  assumes "always_busy E" and "m_timeoutMs s \<noteq> 0" and "IsReady s"
  shows "\<exists>L s'. ExecStatement E t rv res True pn s = Some ((False, L), s')
           \<and> retValue L = SQLITE_BUSY \<and> reconnects (emitted s s') = 1"
proof -
  from busy_loop [OF assms(1), of "(frame0 rv res pn, s)" t True] assms(2)
  obtain c' where run: "ExecStatement_loop E t True (frame0 rv res pn, s) = Some c'"
    and fin: "retValue (fst c') = SQLITE_BUSY" "reconnects (emitted s (snd c')) = 1"
    by (auto simp: frame0_def)
  from run fin assms(3) show ?thesis
    by (cases c') (simp add: ExecStatement_def SQLITE_BUSY_def)
qed

text \<open>
  C4 on a connection built with a budget of 3000 ms over the busy stub.
\<close>

theorem busy_retry_reconnects_once_witness:
  "always_busy (busy_stub (0, Some 2) 1)
   \<and> m_timeoutMs (SqliteWrapper_timeout (busy_stub (0, Some 2) 1) ''db'' 3000 ()) \<noteq> 0
   \<and> IsReady (SqliteWrapper_timeout (busy_stub (0, Some 2) 1) ''db'' 3000 ())
   \<and> (\<exists>L s'. ExecStatement (busy_stub (0, Some 2) 1) ''SELECT 1'' 0 [] True None
                (SqliteWrapper_timeout (busy_stub (0, Some 2) 1) ''db'' 3000 ())
              = Some ((False, L), s')
            \<and> retValue L = SQLITE_BUSY
            \<and> reconnects (emitted (SqliteWrapper_timeout (busy_stub (0, Some 2) 1) ''db'' 3000 ()) s') = 1)"
proof -
  have a: "always_busy (busy_stub (0, Some 2) 1)"
    by (simp add: always_busy_def busy_stub_def)
  have b: "m_timeoutMs (SqliteWrapper_timeout (busy_stub (0, Some 2) 1) ''db'' 3000 ()) \<noteq> 0"
    by code_simp
  have c: "IsReady (SqliteWrapper_timeout (busy_stub (0, Some 2) 1) ''db'' 3000 ())"
    by code_simp
  from busy_retry_reconnects_once [OF a b c, of "''SELECT 1''" 0 "[]" None] a b c
  show ?thesis by blast
qed

text \<open>
  C5, as amended. On a ready connection with a budget other than 0, a call with the retry
  flag cleared against an engine that answers every submission with \<^verbatim>\<open>SQLITE_BUSY\<close>
  returns; it reports failure with the busy status, and one \<^verbatim>\<open>Reconnect\<close> was attempted
  during the call, hence at most one.
\<close>

theorem no_retry_fails_after_one_reconnect:
  assumes "always_busy E" and "m_timeoutMs s \<noteq> 0" and "IsReady s"
  shows "\<exists>L s'. ExecStatement E t rv res False pn s = Some ((False, L), s')
           \<and> retValue L = SQLITE_BUSY \<and> reconnects (emitted s s') = 1"
proof -
  from busy_loop [OF assms(1), of "(frame0 rv res pn, s)" t False] assms(2)
  obtain c' where run: "ExecStatement_loop E t False (frame0 rv res pn, s) = Some c'"
    and fin: "retValue (fst c') = SQLITE_BUSY" "reconnects (emitted s (snd c')) = 1"
    by (auto simp: frame0_def)
  from run fin assms(3) show ?thesis
    by (cases c') (simp add: ExecStatement_def SQLITE_BUSY_def)
qed

text \<open>
  The amended C5 on a connection built with a budget of 3000 ms over the busy stub.
\<close>

theorem no_retry_fails_after_one_reconnect_witness:
  "always_busy (busy_stub (0, Some 2) 1)
   \<and> m_timeoutMs (SqliteWrapper_timeout (busy_stub (0, Some 2) 1) ''db'' 3000 ()) \<noteq> 0
   \<and> IsReady (SqliteWrapper_timeout (busy_stub (0, Some 2) 1) ''db'' 3000 ())
   \<and> (\<exists>L s'. ExecStatement (busy_stub (0, Some 2) 1) ''SELECT 1'' 0 [] False None
                (SqliteWrapper_timeout (busy_stub (0, Some 2) 1) ''db'' 3000 ())
              = Some ((False, L), s')
            \<and> retValue L = SQLITE_BUSY
            \<and> reconnects (emitted (SqliteWrapper_timeout (busy_stub (0, Some 2) 1) ''db'' 3000 ()) s') = 1)"
proof -
  have a: "always_busy (busy_stub (0, Some 2) 1)"
    by (simp add: always_busy_def busy_stub_def)
  have b: "m_timeoutMs (SqliteWrapper_timeout (busy_stub (0, Some 2) 1) ''db'' 3000 ()) \<noteq> 0"
    by code_simp
  have c: "IsReady (SqliteWrapper_timeout (busy_stub (0, Some 2) 1) ''db'' 3000 ())"
    by code_simp
  from no_retry_fails_after_one_reconnect [OF a b c, of "''SELECT 1''" 0 "[]" None] a b c
  show ?thesis by blast
qed

text \<open>
  C5 as stated fails when the budget is 0: line 167 tests \<^verbatim>\<open>m_timeoutMs == 0\<close> before the
  retry flag, so the call with the flag cleared sleeps and submits for ever against the
  busy stub and never returns.
\<close>

theorem no_retry_unlimited_budget_never_returns:
  "always_busy (busy_stub (0, Some 2) 1)
   \<and> IsReady (SqliteWrapper_timeout (busy_stub (0, Some 2) 1) ''db'' 0 ())
   \<and> ExecStatement (busy_stub (0, Some 2) 1) ''SELECT 1'' 0 [] False None
         (SqliteWrapper_timeout (busy_stub (0, Some 2) 1) ''db'' 0 ()) = None"
proof -
  have a: "always_busy (busy_stub (0, Some 2) 1)"
    by (simp add: always_busy_def busy_stub_def)
  have b: "m_timeoutMs (SqliteWrapper_timeout (busy_stub (0, Some 2) 1) ''db'' 0 ()) = 0"
    by code_simp
  have c: "IsReady (SqliteWrapper_timeout (busy_stub (0, Some 2) 1) ''db'' 0 ())"
    by code_simp
  from busy_forever_call [OF a b c] a c show ?thesis by blast
qed

section \<open>The unlimited budget\<close>

text \<open>
  C6. On a ready connection whose budget is 0: against an engine that is always busy the
  call never returns; and whenever the call returns, its last status is not
  \<^verbatim>\<open>SQLITE_BUSY\<close>, it slept 15 ms exactly once for each busy submission, and it attempted
  no more reconnects than it saw submissions end in an error. So a busy submission is
  always answered by the backoff and never by \<^verbatim>\<open>Reconnect\<close>, and a call whose
  submissions came back busy or successful attempted none.
\<close>

theorem unlimited_budget_backs_off:
  assumes "m_timeoutMs s = 0" and "IsReady s"
  shows "(always_busy E \<longrightarrow> ExecStatement E t rv res retry pn s = None)
       \<and> (\<forall>ok L s'. ExecStatement E t rv res retry pn s = Some ((ok, L), s') \<longrightarrow>
              retValue L \<noteq> SQLITE_BUSY
            \<and> sleeps (emitted s s') = busy_submissions (emitted s s')
            \<and> reconnects (emitted s s') \<le> failed_submissions (emitted s s'))"
proof (intro conjI impI allI)
  assume "always_busy E"
  then show "ExecStatement E t rv res retry pn s = None"
    using assms by (rule busy_forever_call)
next
  fix ok L s'
  assume "ExecStatement E t rv res retry pn s = Some ((ok, L), s')"
  with assms(2) have run: "ExecStatement_loop E t retry (frame0 rv res pn, s) = Some (L, s')"
    by (auto simp: ExecStatement_def split: option.splits)
  from budget0_loop [OF run] assms(1)
  show "retValue L \<noteq> SQLITE_BUSY"
    and "sleeps (emitted s s') = busy_submissions (emitted s s')"
    and "reconnects (emitted s s') \<le> failed_submissions (emitted s s')"
    by (simp_all add: frame0_def)
qed

text \<open>
  C6 on the busy stub, and on a script of three busy submissions followed by a success.
\<close>

theorem unlimited_budget_backs_off_witness:
  "m_timeoutMs (SqliteWrapper_timeout (busy_stub (0, Some 2) 1) ''db'' 0 ()) = 0
   \<and> IsReady (SqliteWrapper_timeout (busy_stub (0, Some 2) 1) ''db'' 0 ())
   \<and> always_busy (busy_stub (0, Some 2) 1)
   \<and> ExecStatement (busy_stub (0, Some 2) 1) ''SELECT 1'' 0 [] True None
         (SqliteWrapper_timeout (busy_stub (0, Some 2) 1) ''db'' 0 ()) = None
   \<and> (\<exists>L s'. ExecStatement (script_stub (0, Some 2) 1) ''SELECT 1'' 0 [] True None
                (SqliteWrapper_timeout (script_stub (0, Some 2) 1) ''db'' 0
                   [(5, []), (5, []), (5, []), (0, [[Some ''1'']])])
              = Some ((True, L), s')
            \<and> retValue L \<noteq> SQLITE_BUSY
            \<and> sleeps (emitted (SqliteWrapper_timeout (script_stub (0, Some 2) 1) ''db'' 0
                   [(5, []), (5, []), (5, []), (0, [[Some ''1'']])]) s') = 3
            \<and> reconnects (emitted (SqliteWrapper_timeout (script_stub (0, Some 2) 1) ''db'' 0
                   [(5, []), (5, []), (5, []), (0, [[Some ''1'']])]) s') = 0)"
proof -
  let ?B = "busy_stub (0, Some 2) 1"
  let ?sB = "SqliteWrapper_timeout ?B ''db'' 0 ()"
  let ?S = "script_stub (0, Some 2) 1"
  let ?sS = "SqliteWrapper_timeout ?S ''db'' 0 [(5, []), (5, []), (5, []), (0, [[Some ''1'']])]"
  have a: "always_busy ?B"
    by (simp add: always_busy_def busy_stub_def)
  have b: "m_timeoutMs ?sB = 0" "IsReady ?sB" "m_timeoutMs ?sS = 0" "IsReady ?sS"
    by code_simp+
  have "map_option (\<lambda>x. (fst (fst x), busy_submissions (emitted ?sS (snd x)),
            failed_submissions (emitted ?sS (snd x))))
          (ExecStatement ?S ''SELECT 1'' 0 [] True None ?sS) = Some (True, 3, 0)"
    by code_simp
  then obtain L s' where run: "ExecStatement ?S ''SELECT 1'' 0 [] True None ?sS = Some ((True, L), s')"
    and obs: "busy_submissions (emitted ?sS s') = 3" "failed_submissions (emitted ?sS s') = 0"
    by auto
  from unlimited_budget_backs_off [OF b(3,4), of ?S "''SELECT 1''" 0 "[]" True None] run obs
  have "retValue L \<noteq> SQLITE_BUSY \<and> sleeps (emitted ?sS s') = 3 \<and> reconnects (emitted ?sS s') = 0"
    by auto
  with run unlimited_budget_backs_off [OF b(1,2), of ?B "''SELECT 1''" 0 "[]" True None] a b
  show ?thesis by blast
qed

section \<open>SetTimeout and a running call\<close>

text \<open>
  C7, as amended. \<^verbatim>\<open>SetTimeout\<close> replaces the budget at once, also for a call that is
  already in its retry loop: line 167 reads \<^verbatim>\<open>m_timeoutMs\<close> on every busy iteration.
  Against an engine that is always busy, a call that entered its loop with a budget of 0
  never returns when left alone, but returns, reporting the busy status, when another
  thread sets a budget other than 0 after its first iteration. A call that starts after
  the \<^verbatim>\<open>SetTimeout\<close> runs on the new budget as well: it returns failure where, on the
  budget of 0, it would not return.
\<close>

theorem SetTimeout_reaches_running_call:
  assumes "always_busy E" and "\<not> loop_done L" and "m_timeoutMs s = 0" and "v \<noteq> 0"
  shows "ExecStatement_loop E t r (L, s) = None
       \<and> (\<exists>c'. ExecStatement_interleaved E t r [SetTimeout v] (L, s) = Some c'
               \<and> retValue (fst c') = SQLITE_BUSY)
       \<and> (IsReady s \<longrightarrow>
            ExecStatement E t rv res r pn s = None
          \<and> (\<exists>L' s'. ExecStatement E t rv res r pn (SetTimeout v s) = Some ((False, L'), s')))"
proof (intro conjI impI)
  from assms(1-3) show "ExecStatement_loop E t r (L, s) = None"
    by (intro busy_forever) simp_all
next
  obtain L1 s1 where body: "ExecStatement_body E t r (L, s) = (L1, s1)"
    by (cases "ExecStatement_body E t r (L, s)")
  from busy_body_budget0 [OF assms(1), of "(L, s)" t r] assms(2,3) body
  have 1: "retValue L1 = SQLITE_BUSY" "\<not> loop_done L1" by simp_all
  from finite_budget_terminates [of "(L1, SetTimeout v s1)" E t r] assms(4)
  obtain c' where run: "ExecStatement_loop E t r (L1, SetTimeout v s1) = Some c'" by auto
  from busy_retValue [OF assms(1) run] 1 have "retValue (fst c') = SQLITE_BUSY" by simp
  with run body assms(2)
  show "\<exists>c'. ExecStatement_interleaved E t r [SetTimeout v] (L, s) = Some c'
               \<and> retValue (fst c') = SQLITE_BUSY"
    by simp
next
  assume "IsReady s"
  with assms(1,3) show "ExecStatement E t rv res r pn s = None"
    by (intro busy_forever_call)
next
  assume ready: "IsReady s"
  from busy_loop [OF assms(1), of "(frame0 rv res pn, SetTimeout v s)" t r] assms(4)
  obtain c' where run: "ExecStatement_loop E t r (frame0 rv res pn, SetTimeout v s) = Some c'"
    and fin: "retValue (fst c') = SQLITE_BUSY"
    by (auto simp: frame0_def)
  from run fin ready show "\<exists>L' s'. ExecStatement E t rv res r pn (SetTimeout v s) = Some ((False, L'), s')"
    by (cases c') (simp add: ExecStatement_def IsReady_def SQLITE_BUSY_def)
qed

text \<open>
  The amended C7 on the busy stub, with \<^verbatim>\<open>SetTimeout(3000)\<close> after the first iteration.
\<close>

theorem SetTimeout_reaches_running_call_witness:
  "always_busy (busy_stub (0, Some 2) 1)
   \<and> \<not> loop_done (frame0 0 [] None)
   \<and> m_timeoutMs (SqliteWrapper_timeout (busy_stub (0, Some 2) 1) ''db'' 0 ()) = 0
   \<and> (3000 :: 32 word) \<noteq> 0
   \<and> IsReady (SqliteWrapper_timeout (busy_stub (0, Some 2) 1) ''db'' 0 ())
   \<and> ExecStatement_loop (busy_stub (0, Some 2) 1) ''SELECT 1'' True
         (frame0 0 [] None, SqliteWrapper_timeout (busy_stub (0, Some 2) 1) ''db'' 0 ()) = None
   \<and> (\<exists>c'. ExecStatement_interleaved (busy_stub (0, Some 2) 1) ''SELECT 1'' True [SetTimeout 3000]
              (frame0 0 [] None, SqliteWrapper_timeout (busy_stub (0, Some 2) 1) ''db'' 0 ())
            = Some c'
          \<and> retValue (fst c') = SQLITE_BUSY)
   \<and> ExecStatement (busy_stub (0, Some 2) 1) ''SELECT 1'' 0 [] True None
         (SqliteWrapper_timeout (busy_stub (0, Some 2) 1) ''db'' 0 ()) = None
   \<and> (\<exists>L' s'. ExecStatement (busy_stub (0, Some 2) 1) ''SELECT 1'' 0 [] True None
                 (SetTimeout 3000 (SqliteWrapper_timeout (busy_stub (0, Some 2) 1) ''db'' 0 ()))
               = Some ((False, L'), s'))"
proof -
  have a: "always_busy (busy_stub (0, Some 2) 1)"
    by (simp add: always_busy_def busy_stub_def)
  have b: "\<not> loop_done (frame0 0 [] None)" by (simp add: frame0_def)
  have c: "m_timeoutMs (SqliteWrapper_timeout (busy_stub (0, Some 2) 1) ''db'' 0 ()) = 0"
    by code_simp
  have d: "(3000 :: 32 word) \<noteq> 0" by simp
  have e: "IsReady (SqliteWrapper_timeout (busy_stub (0, Some 2) 1) ''db'' 0 ())"
    by code_simp
  from SetTimeout_reaches_running_call [OF a b c d, of "''SELECT 1''" True 0 "[]" None] a b c d e
  show ?thesis by blast
qed

text \<open>
  C7 as stated fails. The call enters its loop with a budget of 0 against the busy stub;
  alone it never returns. With \<^verbatim>\<open>SetTimeout(3000)\<close> run by another thread after the
  third iteration, the same call gives up: it attempts a reconnect and returns with the
  busy status. So the call does not keep the budget it entered the loop with.
\<close>

theorem running_call_sees_SetTimeout:
  "ExecStatement_loop (busy_stub (0, Some 2) 1) ''SELECT 1'' True
     (frame0 0 [] None, SqliteWrapper_timeout (busy_stub (0, Some 2) 1) ''db'' 0 ()) = None
   \<and> map_option (retValue \<circ> fst)
       (ExecStatement_interleaved (busy_stub (0, Some 2) 1) ''SELECT 1'' True
          [id, id, SetTimeout 3000]
          (frame0 0 [] None, SqliteWrapper_timeout (busy_stub (0, Some 2) 1) ''db'' 0 ()))
       = Some 5
   \<and> map_option (alreadyTriedReconnecting \<circ> fst)
       (ExecStatement_interleaved (busy_stub (0, Some 2) 1) ''SELECT 1'' True
          [id, id, SetTimeout 3000]
          (frame0 0 [] None, SqliteWrapper_timeout (busy_stub (0, Some 2) 1) ''db'' 0 ()))
       = Some True"
proof -
  have a: "always_busy (busy_stub (0, Some 2) 1)"
    by (simp add: always_busy_def busy_stub_def)
  have c: "m_timeoutMs (SqliteWrapper_timeout (busy_stub (0, Some 2) 1) ''db'' 0 ()) = 0"
    by code_simp
  have "ExecStatement_loop (busy_stub (0, Some 2) 1) ''SELECT 1'' True
     (frame0 0 [] None, SqliteWrapper_timeout (busy_stub (0, Some 2) 1) ''db'' 0 ()) = None"
    using a c by (intro busy_forever) (simp_all add: frame0_def)
  moreover have "map_option (retValue \<circ> fst)
       (ExecStatement_interleaved (busy_stub (0, Some 2) 1) ''SELECT 1'' True
          [id, id, SetTimeout 3000]
          (frame0 0 [] None, SqliteWrapper_timeout (busy_stub (0, Some 2) 1) ''db'' 0 ()))
       = Some 5"
    by code_simp
  moreover have "map_option (alreadyTriedReconnecting \<circ> fst)
       (ExecStatement_interleaved (busy_stub (0, Some 2) 1) ''SELECT 1'' True
          [id, id, SetTimeout 3000]
          (frame0 0 [] None, SqliteWrapper_timeout (busy_stub (0, Some 2) 1) ''db'' 0 ()))
       = Some True"
    by code_simp
  ultimately show ?thesis by blast
qed

section \<open>Destruction\<close>

text \<open>
  C8, as amended. Take a ready connection with a handle \<open>h\<close> on which the engine reports a
  transaction, and let the budget be other than 0 or the engine be one that is never busy
  for ever. Then \<^verbatim>\<open>DestroyDatabase\<close>, and so the destructor, returns and reports success:
  the rollback attempt it makes returns, with success or failure, and afterwards the
  connection is not ready and has no handle. What it did, in order: the autocommit query,
  the submission of \<^verbatim>\<open>ROLLBACK TRANSACTION\<close> on \<open>h\<close> under the shared guard, the rest of
  the rollback attempt, the diagnostic exactly if the rollback failed, and last the close
  of the handle.
\<close>

theorem destroy_rolls_back_first:
  assumes "m_database s = Some h" and "IsReady s"
    and "sqlite3_a3d_get_autocommit E (Some h) (eng s) = 0"
    and "m_timeoutMs s \<noteq> 0 \<or> answers_eventually E"
  shows "\<exists>ok s2 s' rows rc rest.
           RollBackTransaction E (snd (IsInTransaction E s)) = Some (ok, s2)
         \<and> DestroyDatabase E s = Some (True, s') \<and> destructor E s = Some s'
         \<and> \<not> IsReady s' \<and> m_database s' = None
         \<and> emitted s s' =
             [EvGetAutocommit (Some h), EvLockShared,
              EvExec (Some h) ''ROLLBACK TRANSACTION'' rows rc, EvUnlockShared]
             @ rest
             @ (if ok then [] else [EvCout ''DestroyDatabase: could not rollback transaction''])
             @ [EvClose (m_database s2)]"
proof -
  let ?s1 = "snd (IsInTransaction E s)"
  have s1: "trace ?s1 = trace s @ [EvGetAutocommit (Some h)]" "m_database ?s1 = Some h" "IsReady ?s1"
    "m_timeoutMs ?s1 = m_timeoutMs s"
    using assms by (simp_all add: IsInTransaction_def IsReady_def)
  from assms(4) s1(4) have "m_timeoutMs ?s1 \<noteq> 0 \<or> answers_eventually E" by simp
  from rollback_returns [OF this] obtain ok s2
    where rb: "RollBackTransaction E ?s1 = Some (ok, s2)" by blast
  from rollback_first_events [OF rb s1(3)] s1 obtain rows rc rest
    where tr: "trace s2 = trace s @ [EvGetAutocommit (Some h), EvLockShared,
                 EvExec (Some h) ''ROLLBACK TRANSACTION'' rows rc, EvUnlockShared] @ rest"
    by auto
  let ?s3 = "if \<not> ok then emit [EvCout ''DestroyDatabase: could not rollback transaction''] s2 else s2"
  let ?s' = "(emit [EvClose (m_database ?s3)]
               (?s3\<lparr>eng := sqlite3_a3d_close_v2 E (m_database ?s3) (eng ?s3)\<rparr>))
             \<lparr>m_isOpened := False, m_database := None\<rparr>"
  have d: "DestroyDatabase E s = Some (True, ?s')"
    using assms(1-3) rb
    by (simp add: DestroyDatabase_def IsReady_def IsInTransaction_def Let_def)
  then have "destructor E s = Some ?s'"
    by (simp add: destructor_def)
  moreover have "\<not> IsReady ?s'" "m_database ?s' = None"
    by (simp_all add: IsReady_def)
  moreover have "emitted s ?s' =
      [EvGetAutocommit (Some h), EvLockShared,
       EvExec (Some h) ''ROLLBACK TRANSACTION'' rows rc, EvUnlockShared]
      @ rest
      @ (if ok then [] else [EvCout ''DestroyDatabase: could not rollback transaction''])
      @ [EvClose (m_database s2)]"
    by (rule emittedI) (simp add: tr)
  ultimately show ?thesis using rb d by blast
qed

text \<open>
  The amended C8 twice, with a rollback that fails each time: at budget 0 on an engine
  that answers the rollback with an I/O error before and after the reconnect, and at a
  budget of 3000 ms on an engine that is busy for ever.
\<close>

theorem destroy_rolls_back_first_witness:
  "m_database (SqliteWrapper_timeout (script_stub (0, Some 2) 0) ''db'' 0 [(10, []), (10, [])])
     = Some 2
   \<and> IsReady (SqliteWrapper_timeout (script_stub (0, Some 2) 0) ''db'' 0 [(10, []), (10, [])])
   \<and> sqlite3_a3d_get_autocommit (script_stub (0, Some 2) 0) (Some 2)
         (eng (SqliteWrapper_timeout (script_stub (0, Some 2) 0) ''db'' 0 [(10, []), (10, [])])) = 0
   \<and> answers_eventually (script_stub (0, Some 2) 0)
   \<and> (\<exists>s' rest.
         DestroyDatabase (script_stub (0, Some 2) 0)
           (SqliteWrapper_timeout (script_stub (0, Some 2) 0) ''db'' 0 [(10, []), (10, [])])
           = Some (True, s')
       \<and> \<not> IsReady s' \<and> m_database s' = None
       \<and> emitted (SqliteWrapper_timeout (script_stub (0, Some 2) 0) ''db'' 0 [(10, []), (10, [])]) s' =
           [EvGetAutocommit (Some 2), EvLockShared,
            EvExec (Some 2) ''ROLLBACK TRANSACTION'' [] 10, EvUnlockShared]
           @ rest
           @ [EvCout ''DestroyDatabase: could not rollback transaction'', EvClose (Some 2)])
   \<and> m_timeoutMs (SqliteWrapper_timeout (busy_stub (0, Some 2) 0) ''db'' 3000 ()) \<noteq> 0
   \<and> (\<exists>s' rest.
         DestroyDatabase (busy_stub (0, Some 2) 0)
           (SqliteWrapper_timeout (busy_stub (0, Some 2) 0) ''db'' 3000 ()) = Some (True, s')
       \<and> \<not> IsReady s' \<and> m_database s' = None
       \<and> emitted (SqliteWrapper_timeout (busy_stub (0, Some 2) 0) ''db'' 3000 ()) s' =
           [EvGetAutocommit (Some 2), EvLockShared,
            EvExec (Some 2) ''ROLLBACK TRANSACTION'' [] 5, EvUnlockShared]
           @ rest
           @ [EvCout ''DestroyDatabase: could not rollback transaction'', EvClose (Some 2)])"
proof -
  let ?S = "script_stub (0, Some 2) 0"
  let ?s = "SqliteWrapper_timeout ?S ''db'' 0 [(10, []), (10, [])]"
  have h: "m_database ?s = Some 2" "IsReady ?s" "sqlite3_a3d_get_autocommit ?S (Some 2) (eng ?s) = 0"
    by code_simp+
  have a: "answers_eventually ?S" by (rule script_stub_answers)
  then have a': "m_timeoutMs ?s \<noteq> 0 \<or> answers_eventually ?S" ..
  have r: "map_option (\<lambda>x. (fst x, m_database (snd x)))
          (RollBackTransaction ?S (snd (IsInTransaction ?S ?s))) = Some (False, Some 2)"
    by code_simp
  have e: "map_option (\<lambda>x. emitted ?s (snd x) ! 2) (DestroyDatabase ?S ?s)
          = Some (EvExec (Some 2) ''ROLLBACK TRANSACTION'' [] 10)"
    by code_simp
  from destroy_rolls_back_first [OF h a'] r
  obtain s' rows rc rest where d: "DestroyDatabase ?S ?s = Some (True, s')"
    "\<not> IsReady s'" "m_database s' = None"
    and tr: "emitted ?s s' =
       [EvGetAutocommit (Some 2), EvLockShared,
        EvExec (Some 2) ''ROLLBACK TRANSACTION'' rows rc, EvUnlockShared]
       @ rest @ [EvCout ''DestroyDatabase: could not rollback transaction'', EvClose (Some 2)]"
    by auto
  with e have "rows = []" "rc = 10" by auto
  with d tr have 1: "\<exists>s' rest. DestroyDatabase ?S ?s = Some (True, s')
       \<and> \<not> IsReady s' \<and> m_database s' = None
       \<and> emitted ?s s' =
           [EvGetAutocommit (Some 2), EvLockShared,
            EvExec (Some 2) ''ROLLBACK TRANSACTION'' [] 10, EvUnlockShared]
           @ rest
           @ [EvCout ''DestroyDatabase: could not rollback transaction'', EvClose (Some 2)]"
    by blast
  let ?B = "busy_stub (0, Some 2) 0"
  let ?t = "SqliteWrapper_timeout ?B ''db'' 3000 ()"
  have hB: "m_database ?t = Some 2" "IsReady ?t" "sqlite3_a3d_get_autocommit ?B (Some 2) (eng ?t) = 0"
    by code_simp+
  have bB: "m_timeoutMs ?t \<noteq> 0" by code_simp
  then have bB': "m_timeoutMs ?t \<noteq> 0 \<or> answers_eventually ?B" ..
  have rB: "map_option (\<lambda>x. (fst x, m_database (snd x)))
          (RollBackTransaction ?B (snd (IsInTransaction ?B ?t))) = Some (False, Some 2)"
    by code_simp
  have eB: "map_option (\<lambda>x. emitted ?t (snd x) ! 2) (DestroyDatabase ?B ?t)
          = Some (EvExec (Some 2) ''ROLLBACK TRANSACTION'' [] 5)"
    by code_simp
  from destroy_rolls_back_first [OF hB bB'] rB
  obtain s' rows rc rest where d: "DestroyDatabase ?B ?t = Some (True, s')"
    "\<not> IsReady s'" "m_database s' = None"
    and tr: "emitted ?t s' =
       [EvGetAutocommit (Some 2), EvLockShared,
        EvExec (Some 2) ''ROLLBACK TRANSACTION'' rows rc, EvUnlockShared]
       @ rest @ [EvCout ''DestroyDatabase: could not rollback transaction'', EvClose (Some 2)]"
    by auto
  with eB have "rows = []" "rc = 5" by auto
  with d tr have 2: "\<exists>s' rest. DestroyDatabase ?B ?t = Some (True, s')
       \<and> \<not> IsReady s' \<and> m_database s' = None
       \<and> emitted ?t s' =
           [EvGetAutocommit (Some 2), EvLockShared,
            EvExec (Some 2) ''ROLLBACK TRANSACTION'' [] 5, EvUnlockShared]
           @ rest
           @ [EvCout ''DestroyDatabase: could not rollback transaction'', EvClose (Some 2)]"
    by blast
  from h a 1 bB 2 show ?thesis by blast
qed

text \<open>
  C8 as stated fails at budget 0 on an engine that is busy for ever: the rollback attempt
  sleeps and submits again without end (line 167), so \<^verbatim>\<open>DestroyDatabase\<close> and the
  destructor never return, and the handle is never released.
\<close>

theorem destroy_hangs_on_busy_rollback:
  "m_database (SqliteWrapper_timeout (busy_stub (0, Some 2) 0) ''db'' 0 ()) = Some 2
   \<and> IsReady (SqliteWrapper_timeout (busy_stub (0, Some 2) 0) ''db'' 0 ())
   \<and> fst (IsInTransaction (busy_stub (0, Some 2) 0)
            (SqliteWrapper_timeout (busy_stub (0, Some 2) 0) ''db'' 0 ()))
   \<and> DestroyDatabase (busy_stub (0, Some 2) 0)
         (SqliteWrapper_timeout (busy_stub (0, Some 2) 0) ''db'' 0 ()) = None
   \<and> destructor (busy_stub (0, Some 2) 0)
         (SqliteWrapper_timeout (busy_stub (0, Some 2) 0) ''db'' 0 ()) = None"
proof -
  let ?B = "busy_stub (0, Some 2) 0"
  let ?s = "SqliteWrapper_timeout ?B ''db'' 0 ()"
  have a: "always_busy ?B" by (simp add: always_busy_def busy_stub_def)
  have h: "m_timeoutMs ?s = 0" "m_database ?s = Some 2" "IsReady ?s"
    "sqlite3_a3d_get_autocommit ?B (Some 2) (eng ?s) = 0" "fst (IsInTransaction ?B ?s)"
    by code_simp+
  from destroy_never_returns [OF a h(1-4)] have "DestroyDatabase ?B ?s = None" .
  with h show ?thesis by (simp add: destructor_def)
qed

section \<open>Guard discipline\<close>

text \<open>
  C9. Take \<open>n\<close> calls of \<^verbatim>\<open>ExecStatement\<close> that return, on any engines and from any states,
  and let their threads run on one guard under any schedule. Each call follows the
  discipline of its mode: exclusive if it passes a row-count slot, shared otherwise, with
  the submission and the read of the counter inside one hold. While a call with a
  row-count slot holds the guard, no other call holds it in any mode, so no other call
  is inside its own submission window or its reconnect. And two ready calls without a
  slot can both be inside their windows at once: the schedule that lets each take the
  guard and submit is possible.
\<close>

theorem guard_discipline:
  fixes E :: "nat \<Rightarrow> 'e engine"
  assumes calls: "\<forall>k<n. ExecStatement (E k) (t k) (rv k) (res k) (retry k) (pn k) (s k) = Some (x k, s' k)"
  shows "(\<forall>k<n. discipline (guard_mode (pn k)) Free (programs n s s' ! k))
       \<and> (\<forall>sched \<sigma> i j.
             schedule sched (start (programs n s s')) = Some \<sigma>
             \<and> i < n \<and> j < n \<and> i \<noteq> j \<and> pn i \<noteq> None \<and> holding (performed \<sigma> ! i) \<noteq> Free
             \<longrightarrow> holding (performed \<sigma> ! j) = Free)
       \<and> (\<forall>i j. i < n \<and> j < n \<and> i \<noteq> j \<and> pn i = None \<and> pn j = None
                \<and> IsReady (s i) \<and> IsReady (s j)
             \<longrightarrow> (\<exists>\<sigma>. schedule [i, i, j, j] (start (programs n s s')) = Some \<sigma>
                    \<and> holding (performed \<sigma> ! i) = Held Shared True
                    \<and> holding (performed \<sigma> ! j) = Held Shared True))"
proof (intro conjI allI impI)
  fix k assume "k < n"
  with calls call_discipline [of "E k" "t k" "rv k" "res k" "retry k" "pn k" "s k" "x k" "s' k"]
  show "discipline (guard_mode (pn k)) Free (programs n s s' ! k)" by simp
next
  fix sched \<sigma> i j
  assume a: "schedule sched (start (programs n s s')) = Some \<sigma>
             \<and> i < n \<and> j < n \<and> i \<noteq> j \<and> pn i \<noteq> None \<and> holding (performed \<sigma> ! i) \<noteq> Free"
  let ?ms = "map (\<lambda>k. guard_mode (pn k)) [0..<n]"
  have "guard_inv ?ms (start (programs n s s'))"
  proof (rule guard_inv_start)
    show "length ?ms = length (programs n s s')" by simp
    show "\<forall>k<length (programs n s s'). discipline (?ms ! k) Free (programs n s s' ! k)"
      using calls call_discipline [of "E k" "t k" "rv k" "res k" "retry k" "pn k" "s k" "x k" "s' k" for k]
      by simp
  qed
  with a have inv: "guard_inv ?ms \<sigma>" by (blast intro: guard_inv_schedule)
  from a have "?ms ! i = Exclusive" by (simp add: guard_mode_def)
  with inv a have "shar (holding (performed \<sigma> ! i)) = 0"
    unfolding guard_inv_def by simp
  with a have "excl (holding (performed \<sigma> ! i)) = 1"
    by (cases "holding (performed \<sigma> ! i)" rule: excl.cases) auto
  from exclusive_holder_alone [OF inv _ _ _ this, of j] a
  show "holding (performed \<sigma> ! j) = Free" by simp
next
  fix i j
  assume a: "i < n \<and> j < n \<and> i \<noteq> j \<and> pn i = None \<and> pn j = None \<and> IsReady (s i) \<and> IsReady (s j)"
  with calls have ci: "ExecStatement (E i) (t i) (rv i) (res i) (retry i) None (s i) = Some (x i, s' i)"
    and cj: "ExecStatement (E j) (t j) (rv j) (res j) (retry j) None (s j) = Some (x j, s' j)"
    by (metis)+
  from call_first_events [OF ci] call_first_events [OF cj] a
  obtain rowsi rci resti rowsj rcj restj
    where "programs n s s' ! i = EvLockShared # EvExec (m_database (s i)) (t i) rowsi rci # resti"
      and "programs n s s' ! j = EvLockShared # EvExec (m_database (s j)) (t j) rowsj rcj # restj"
    by auto
  with a show "\<exists>\<sigma>. schedule [i, i, j, j] (start (programs n s s')) = Some \<sigma>
                    \<and> holding (performed \<sigma> ! i) = Held Shared True
                    \<and> holding (performed \<sigma> ! j) = Held Shared True"
    by (intro two_shared_overlap) simp_all
qed

text \<open>
  C9 on three calls, the first with a row-count slot: after the first call has taken the
  guard and submitted, the other two hold nothing, and the second cannot step; and the
  second and third can both hold the guard, submitted, at the same time.
\<close>

theorem guard_discipline_witness:
  "three_calls 0 \<noteq> None \<and> three_calls 1 \<noteq> None \<and> three_calls 2 \<noteq> None
   \<and> (\<exists>\<sigma>. schedule [0, 0]
           (start (programs 3 (\<lambda>k. SqliteWrapper_timeout (script_stub (0, Some 2) 1) ''db'' 3000 [])
                    (\<lambda>k. snd (the (three_calls k))))) = Some \<sigma>
         \<and> holding (performed \<sigma> ! 0) = Held Exclusive True
         \<and> holding (performed \<sigma> ! 1) = Free \<and> holding (performed \<sigma> ! 2) = Free)
   \<and> (\<exists>\<sigma>. schedule [1, 1, 2, 2]
           (start (programs 3 (\<lambda>k. SqliteWrapper_timeout (script_stub (0, Some 2) 1) ''db'' 3000 [])
                    (\<lambda>k. snd (the (three_calls k))))) = Some \<sigma>
         \<and> holding (performed \<sigma> ! 1) = Held Shared True
         \<and> holding (performed \<sigma> ! 2) = Held Shared True)
   \<and> schedule [0, 1]
         (start (programs 3 (\<lambda>k. SqliteWrapper_timeout (script_stub (0, Some 2) 1) ''db'' 3000 [])
                  (\<lambda>k. snd (the (three_calls k))))) = None"
proof -
  let ?s = "\<lambda>k::nat. SqliteWrapper_timeout (script_stub (0, Some 2) 1) ''db'' 3000 []"
  let ?s' = "\<lambda>k. snd (the (three_calls k))"
  let ?P = "programs 3 ?s ?s'"
  have some: "three_calls k \<noteq> None" if "k < 3" for k
  proof -
    from that have "k = 0 \<or> k = 1 \<or> k = 2" by auto
    moreover have "three_calls 0 \<noteq> None" "three_calls 1 \<noteq> None" "three_calls 2 \<noteq> None"
      by code_simp+
    ultimately show ?thesis by auto
  qed
  have calls: "\<forall>k<3. ExecStatement (script_stub (0, Some 2) 1) ''UPDATE t SET x = 1'' 0 [] True
             (three_calls_slot k) (?s k)
           = Some (fst (the (three_calls k)), snd (the (three_calls k)))"
    using some by (auto simp: three_calls_def)
  note gd = guard_discipline [OF calls]
  have ready: "IsReady (?s 1)" by code_simp
  have "map_option (\<lambda>\<sigma>. holding (performed \<sigma> ! 0)) (schedule [0, 0] (start ?P))
          = Some (Held Exclusive True)"
    by code_simp
  then obtain \<sigma> where run: "schedule [0, 0] (start ?P) = Some \<sigma>"
    and h0: "holding (performed \<sigma> ! 0) = Held Exclusive True"
    by auto
  from gd [THEN conjunct2, THEN conjunct1, rule_format, of "[0, 0]" \<sigma> 0 1] run h0
  have h1: "holding (performed \<sigma> ! 1) = Free" by (simp add: three_calls_slot_def)
  from gd [THEN conjunct2, THEN conjunct1, rule_format, of "[0, 0]" \<sigma> 0 2] run h0
  have h2: "holding (performed \<sigma> ! 2) = Free" by (simp add: three_calls_slot_def)
  from gd [THEN conjunct2, THEN conjunct2, rule_format, of 1 2] ready
  have "\<exists>\<sigma>. schedule [1, 1, 2, 2] (start ?P) = Some \<sigma>
         \<and> holding (performed \<sigma> ! 1) = Held Shared True
         \<and> holding (performed \<sigma> ! 2) = Held Shared True"
    by (simp add: three_calls_slot_def)
  moreover have "schedule [0, 1] (start ?P) = None"
    by code_simp
  ultimately show ?thesis using some [of 0] some [of 1] some [of 2] run h0 h1 h2 by simp
qed

end
